theory Spec2Isabelle
  imports Complex_Main "HOL-Library.Char_ord"
begin

section \<open>Tokens (include/nerd.h)\<close>

datatype (plugins only: code) TokenType =
    TOK_FN | TOK_RET | TOK_TYPE | TOK_IF | TOK_ELSE | TOK_OR | TOK_OK | TOK_ERR
  | TOK_LET | TOK_CALL | TOK_OUT | TOK_DONE | TOK_REPEAT | TOK_AS | TOK_WHILE
  | TOK_NEG | TOK_INC | TOK_DEC
  | TOK_NUM | TOK_INT | TOK_STR | TOK_BOOL | TOK_VOID
  | TOK_PLUS | TOK_MINUS | TOK_TIMES | TOK_OVER | TOK_MOD | TOK_EQ | TOK_NEQ
  | TOK_LT | TOK_GT | TOK_LTE | TOK_GTE | TOK_AND | TOK_NOT
  | TOK_FIRST | TOK_SECOND | TOK_THIRD | TOK_FOURTH
  | TOK_ZERO | TOK_ONE | TOK_TWO | TOK_THREE | TOK_FOUR | TOK_FIVE | TOK_SIX
  | TOK_SEVEN | TOK_EIGHT | TOK_NINE | TOK_TEN
  | TOK_MATH | TOK_LIST | TOK_TIME | TOK_HTTP | TOK_JSON
  | TOK_NUMBER | TOK_STRING | TOK_IDENT
  | TOK_NEWLINE | TOK_EOF

text \<open>The C struct \<^verbatim>\<open>Token\<close>; \<^verbatim>\<open>value_len\<close> is the length of \<^verbatim>\<open>value\<close>.\<close>

record Token =
  ttype :: TokenType
  tvalue :: string
  tline :: int
  tcolumn :: int

section \<open>Lexer (src/lexer.c)\<close>

text \<open>The lexer state: the source bytes, the read position, the line and column
  counters and the tokens produced so far (\<^verbatim>\<open>source_len\<close> is \<open>length (source lx)\<close>).\<close>

record Lexer =
  source :: string
  pos :: nat
  line :: int
  column :: int
  tokens :: "Token list"

definition keyword_table :: "(string \<times> TokenType) list" where
  "keyword_table =
   [(''fn'', TOK_FN), (''ret'', TOK_RET), (''type'', TOK_TYPE), (''if'', TOK_IF),
    (''else'', TOK_ELSE), (''or'', TOK_OR), (''ok'', TOK_OK), (''err'', TOK_ERR),
    (''let'', TOK_LET), (''call'', TOK_CALL), (''out'', TOK_OUT), (''done'', TOK_DONE),
    (''repeat'', TOK_REPEAT), (''as'', TOK_AS), (''while'', TOK_WHILE), (''neg'', TOK_NEG),
    (''inc'', TOK_INC), (''dec'', TOK_DEC),
    (''num'', TOK_NUM), (''int'', TOK_INT), (''str'', TOK_STR), (''bool'', TOK_BOOL),
    (''void'', TOK_VOID),
    (''plus'', TOK_PLUS), (''minus'', TOK_MINUS), (''times'', TOK_TIMES),
    (''over'', TOK_OVER), (''mod'', TOK_MOD), (''eq'', TOK_EQ), (''neq'', TOK_NEQ),
    (''lt'', TOK_LT), (''gt'', TOK_GT), (''lte'', TOK_LTE), (''gte'', TOK_GTE),
    (''and'', TOK_AND), (''not'', TOK_NOT),
    (''first'', TOK_FIRST), (''second'', TOK_SECOND), (''third'', TOK_THIRD),
    (''fourth'', TOK_FOURTH),
    (''zero'', TOK_ZERO), (''one'', TOK_ONE), (''two'', TOK_TWO), (''three'', TOK_THREE),
    (''four'', TOK_FOUR), (''five'', TOK_FIVE), (''six'', TOK_SIX), (''seven'', TOK_SEVEN),
    (''eight'', TOK_EIGHT), (''nine'', TOK_NINE), (''ten'', TOK_TEN),
    (''math'', TOK_MATH), (''list'', TOK_LIST), (''time'', TOK_TIME), (''http'', TOK_HTTP),
    (''json'', TOK_JSON)]"

definition lexer_create :: "string \<Rightarrow> Lexer" where
  "lexer_create src = \<lparr>source = src, pos = 0, line = 1, column = 1, tokens = []\<rparr>"

definition lexer_add_token :: "Lexer \<Rightarrow> TokenType \<Rightarrow> string \<Rightarrow> Lexer" where
  "lexer_add_token lx ty v =
     lx\<lparr>tokens := tokens lx @
          [\<lparr>ttype = ty, tvalue = v, tline = line lx, tcolumn = column lx - int (length v)\<rparr>]\<rparr>"

text \<open>Past the end of the source the C code reads the byte 0.\<close>

definition lexer_current :: "Lexer \<Rightarrow> char" where
  "lexer_current lx = (if pos lx \<ge> length (source lx) then CHR 0x00 else source lx ! pos lx)"

definition lexer_peek :: "Lexer \<Rightarrow> char" where
  "lexer_peek lx =
     (if pos lx + 1 \<ge> length (source lx) then CHR 0x00 else source lx ! (pos lx + 1))"

definition lexer_advance :: "Lexer \<Rightarrow> Lexer" where
  "lexer_advance lx =
     (if pos lx < length (source lx) then lx\<lparr>pos := pos lx + 1, column := column lx + 1\<rparr>
      else lx)"

definition is_alpha :: "char \<Rightarrow> bool" where
  "is_alpha c \<longleftrightarrow> (CHR ''a'' \<le> c \<and> c \<le> CHR ''z'') \<or> (CHR ''A'' \<le> c \<and> c \<le> CHR ''Z'')
     \<or> c = CHR ''_''"

definition is_digit :: "char \<Rightarrow> bool" where
  "is_digit c \<longleftrightarrow> CHR ''0'' \<le> c \<and> c \<le> CHR ''9''"

definition is_alnum :: "char \<Rightarrow> bool" where
  "is_alnum c \<longleftrightarrow> is_alpha c \<or> is_digit c"

definition lookup_keyword :: "string \<Rightarrow> TokenType" where
  "lookup_keyword word = (case map_of keyword_table word of Some t \<Rightarrow> t | None \<Rightarrow> TOK_IDENT)"

text \<open>The scanning loops. Each one advances while its condition holds; the byte 0 read
  past the end of the source stops every one of them.\<close>

function skip_alnum :: "Lexer \<Rightarrow> Lexer" where
  "skip_alnum lx = (if is_alnum (lexer_current lx) then skip_alnum (lexer_advance lx) else lx)"
  by pat_completeness auto
termination
  by (relation "measure (\<lambda>lx. length (source lx) - pos lx)")
     (auto simp: lexer_current_def lexer_advance_def is_alnum_def is_alpha_def is_digit_def
           split: if_splits)

declare skip_alnum.simps [simp del]

function skip_digits :: "Lexer \<Rightarrow> Lexer" where
  "skip_digits lx = (if is_digit (lexer_current lx) then skip_digits (lexer_advance lx) else lx)"
  by pat_completeness auto
termination
  by (relation "measure (\<lambda>lx. length (source lx) - pos lx)")
     (auto simp: lexer_current_def lexer_advance_def is_digit_def split: if_splits)

declare skip_digits.simps [simp del]

function skip_comment :: "Lexer \<Rightarrow> Lexer" where
  "skip_comment lx =
     (if lexer_current lx \<noteq> CHR 0x0A \<and> lexer_current lx \<noteq> CHR 0x00
      then skip_comment (lexer_advance lx) else lx)"
  by pat_completeness auto
termination
  by (relation "measure (\<lambda>lx. length (source lx) - pos lx)")
     (auto simp: lexer_current_def lexer_advance_def split: if_splits)

declare skip_comment.simps [simp del]

definition lexer_scan_word :: "Lexer \<Rightarrow> Lexer" where
  "lexer_scan_word lx =
     (let start = pos lx;
          lx1 = skip_alnum lx;
          len = pos lx1 - start;
          word = take len (drop start (source lx1))
      in lexer_add_token lx1 (lookup_keyword word) word)"

definition lexer_scan_number :: "Lexer \<Rightarrow> Lexer" where
  "lexer_scan_number lx =
     (let start = pos lx;
          lx1 = skip_digits lx;
          lx2 = (if lexer_current lx1 = CHR ''.'' \<and> is_digit (lexer_peek lx1)
                 then skip_digits (lexer_advance lx1) else lx1);
          len = pos lx2 - start
      in lexer_add_token lx2 TOK_NUMBER (take len (drop start (source lx2))))"

text \<open>The body loop of \<^verbatim>\<open>lexer_scan_string\<close>: \<open>None\<close> is the early
  \<^verbatim>\<open>return false\<close> at a newline inside the literal.\<close>

function scan_string_body :: "Lexer \<Rightarrow> Lexer option" where
  "scan_string_body lx =
     (if lexer_current lx \<noteq> CHR 0x22 \<and> lexer_current lx \<noteq> CHR 0x00 then
        (if lexer_current lx = CHR 0x0A then None
         else scan_string_body
                (lexer_advance
                  (if lexer_current lx = CHR 0x5C \<and> lexer_peek lx = CHR 0x22
                   then lexer_advance lx else lx)))
      else Some lx)"
  by pat_completeness auto
termination
  by (relation "measure (\<lambda>lx. length (source lx) - pos lx)")
     (auto simp: lexer_current_def lexer_advance_def split: if_splits)

declare scan_string_body.simps [simp del]

definition lexer_scan_string :: "Lexer \<Rightarrow> Lexer option" where
  "lexer_scan_string lx =
     (let lx0 = lexer_advance lx; start = pos lx0
      in case scan_string_body lx0 of
           None \<Rightarrow> None
         | Some lx1 \<Rightarrow>
             if lexer_current lx1 = CHR 0x00 then None
             else Some (lexer_advance
                         (lexer_add_token lx1 TOK_STRING
                            (take (pos lx1 - start) (drop start (source lx1))))))"


text \<open>Every scanning loop leaves the source alone and never moves backwards; this is what
  the termination of the main loop rests on.\<close>

lemma lexer_advance_source [simp]: "source (lexer_advance lx) = source lx"
  by (simp add: lexer_advance_def)

lemma lexer_advance_pos: "pos lx \<le> pos (lexer_advance lx)"
  by (simp add: lexer_advance_def)

lemma lexer_advance_pos_lt:
  "pos lx < length (source lx) \<Longrightarrow> pos (lexer_advance lx) = pos lx + 1"
  by (simp add: lexer_advance_def)

lemma lexer_add_token_source [simp]: "source (lexer_add_token lx ty v) = source lx"
  by (simp add: lexer_add_token_def)

lemma lexer_add_token_pos [simp]: "pos (lexer_add_token lx ty v) = pos lx"
  by (simp add: lexer_add_token_def)

lemma skip_alnum_mono: "source (skip_alnum lx) = source lx \<and> pos lx \<le> pos (skip_alnum lx)"
proof (induction lx rule: skip_alnum.induct)
  case (1 lx)
  show ?case
  proof (cases "is_alnum (lexer_current lx)")
    case True
    with 1 have "source (skip_alnum (lexer_advance lx)) = source lx"
      and "pos (lexer_advance lx) \<le> pos (skip_alnum (lexer_advance lx))" by simp_all
    with True lexer_advance_pos [of lx] show ?thesis
      by (subst (1 2) skip_alnum.simps) simp
  next
    case False
    then show ?thesis by (subst (1 2) skip_alnum.simps) simp
  qed
qed

lemma skip_digits_mono: "source (skip_digits lx) = source lx \<and> pos lx \<le> pos (skip_digits lx)"
proof (induction lx rule: skip_digits.induct)
  case (1 lx)
  show ?case
  proof (cases "is_digit (lexer_current lx)")
    case True
    with 1 have "source (skip_digits (lexer_advance lx)) = source lx"
      and "pos (lexer_advance lx) \<le> pos (skip_digits (lexer_advance lx))" by simp_all
    with True lexer_advance_pos [of lx] show ?thesis
      by (subst (1 2) skip_digits.simps) simp
  next
    case False
    then show ?thesis by (subst (1 2) skip_digits.simps) simp
  qed
qed

lemma skip_comment_mono:
  "source (skip_comment lx) = source lx \<and> pos lx \<le> pos (skip_comment lx)"
proof (induction lx rule: skip_comment.induct)
  case (1 lx)
  show ?case
  proof (cases "lexer_current lx \<noteq> CHR 0x0A \<and> lexer_current lx \<noteq> CHR 0x00")
    case True
    with 1 have "source (skip_comment (lexer_advance lx)) = source lx"
      and "pos (lexer_advance lx) \<le> pos (skip_comment (lexer_advance lx))" by simp_all
    with True lexer_advance_pos [of lx] show ?thesis
      by (subst (1 2) skip_comment.simps) simp
  next
    case False
    then show ?thesis by (subst (1 2) skip_comment.simps) auto
  qed
qed

lemma scan_string_body_mono:
  "scan_string_body lx = Some lx' \<Longrightarrow> source lx' = source lx \<and> pos lx \<le> pos lx'"
proof (induction lx rule: scan_string_body.induct)
  case (1 lx)
  show ?case
  proof (cases "lexer_current lx \<noteq> CHR 0x22 \<and> lexer_current lx \<noteq> CHR 0x00")
    case go: True
    show ?thesis
    proof (cases "lexer_current lx = CHR 0x0A")
      case True
      with go "1.prems" show ?thesis by (subst (asm) scan_string_body.simps) simp
    next
      case False
      define lx1 where
        "lx1 = lexer_advance (if lexer_current lx = CHR 0x5C \<and> lexer_peek lx = CHR 0x22
                              then lexer_advance lx else lx)"
      from go False "1.prems" have "scan_string_body lx1 = Some lx'"
        by (subst (asm) scan_string_body.simps) (simp add: lx1_def)
      with "1.IH" go False have "source lx' = source lx1 \<and> pos lx1 \<le> pos lx'"
        by (simp add: lx1_def)
      moreover have "source lx1 = source lx" and "pos lx \<le> pos lx1"
        using lexer_advance_pos [of lx] lexer_advance_pos [of "lexer_advance lx"]
        by (auto simp: lx1_def intro: order_trans)
      ultimately show ?thesis by simp
    qed
  next
    case False
    with "1.prems" show ?thesis by (subst (asm) scan_string_body.simps) auto
  qed
qed

lemma current_in_range: "lexer_current lx \<noteq> CHR 0x00 \<Longrightarrow> pos lx < length (source lx)"
  by (simp add: lexer_current_def split: if_splits)

lemma lexer_scan_word_step:
  "is_alpha (lexer_current lx) \<Longrightarrow>
   source (lexer_scan_word lx) = source lx \<and> pos lx < pos (lexer_scan_word lx)"
proof -
  assume a: "is_alpha (lexer_current lx)"
  then have "lexer_current lx \<noteq> CHR 0x00" by (auto simp: is_alpha_def)
  then have "pos (lexer_advance lx) = pos lx + 1"
    by (simp add: current_in_range lexer_advance_pos_lt)
  moreover from a have "skip_alnum lx = skip_alnum (lexer_advance lx)"
    by (subst skip_alnum.simps) (simp add: is_alnum_def)
  ultimately show ?thesis
    using skip_alnum_mono [of "lexer_advance lx"] by (simp add: lexer_scan_word_def Let_def)
qed

lemma lexer_scan_number_step:
  "is_digit (lexer_current lx) \<Longrightarrow>
   source (lexer_scan_number lx) = source lx \<and> pos lx < pos (lexer_scan_number lx)"
proof -
  assume a: "is_digit (lexer_current lx)"
  then have "lexer_current lx \<noteq> CHR 0x00" by (auto simp: is_digit_def)
  then have "pos (lexer_advance lx) = pos lx + 1"
    by (simp add: current_in_range lexer_advance_pos_lt)
  moreover from a have "skip_digits lx = skip_digits (lexer_advance lx)"
    by (subst skip_digits.simps) simp
  ultimately have "source (skip_digits lx) = source lx" and "pos lx < pos (skip_digits lx)"
    using skip_digits_mono [of "lexer_advance lx"] by simp_all
  then show ?thesis
    using skip_digits_mono [of "lexer_advance (skip_digits lx)"]
      lexer_advance_pos [of "skip_digits lx"]
    by (auto simp: lexer_scan_number_def Let_def)
qed

lemma skip_comment_step:
  "lexer_current lx = CHR ''-'' \<or> lexer_current lx = CHR ''#'' \<Longrightarrow>
   source (skip_comment lx) = source lx \<and> pos lx < pos (skip_comment lx)"
proof -
  assume a: "lexer_current lx = CHR ''-'' \<or> lexer_current lx = CHR ''#''"
  then have "lexer_current lx \<noteq> CHR 0x00" by auto
  then have "pos (lexer_advance lx) = pos lx + 1"
    by (simp add: current_in_range lexer_advance_pos_lt)
  moreover from a have "skip_comment lx = skip_comment (lexer_advance lx)"
    by (subst skip_comment.simps) auto
  ultimately show ?thesis
    using skip_comment_mono [of "lexer_advance lx"] by simp
qed

lemma lexer_scan_string_step:
  "lexer_current lx = CHR 0x22 \<Longrightarrow> lexer_scan_string lx = Some lx' \<Longrightarrow>
   source lx' = source lx \<and> pos lx < pos lx'"
proof -
  assume a: "lexer_current lx = CHR 0x22" and b: "lexer_scan_string lx = Some lx'"
  from a have "lexer_current lx \<noteq> CHR 0x00" by simp
  then have p: "pos (lexer_advance lx) = pos lx + 1"
    by (simp add: current_in_range lexer_advance_pos_lt)
  from b obtain lx1 where s: "scan_string_body (lexer_advance lx) = Some lx1"
    and r: "lx' = lexer_advance (lexer_add_token lx1 TOK_STRING
               (take (pos lx1 - pos (lexer_advance lx)) (drop (pos (lexer_advance lx)) (source lx1))))"
    by (auto simp: lexer_scan_string_def Let_def split: option.splits if_splits)
  from scan_string_body_mono [OF s] p have "source lx1 = source lx" and "pos lx < pos lx1"
    by simp_all
  with r show ?thesis
    using lexer_advance_pos [of "lexer_add_token lx1 TOK_STRING
               (take (pos lx1 - pos (lexer_advance lx)) (drop (pos (lexer_advance lx)) (source lx1)))"]
    by simp
qed

text \<open>The main loop of \<^verbatim>\<open>lexer_tokenize\<close>. The boolean is the function's result;
  \<open>False\<close> is an unterminated string or an unexpected character.\<close>

function tokenize_loop :: "Lexer \<Rightarrow> bool \<times> Lexer" where
  "tokenize_loop lx =
     (if pos lx < length (source lx) then
        (if lexer_current lx = CHR '' '' \<or> lexer_current lx = CHR 0x09
            \<or> lexer_current lx = CHR 0x0D then
           tokenize_loop (lexer_advance lx)
         else if lexer_current lx = CHR 0x0A then
           tokenize_loop
             ((lexer_advance (lexer_add_token lx TOK_NEWLINE [CHR 0x5C, CHR ''n'']))
                \<lparr>line := line lx + 1, column := 1\<rparr>)
         else if (lexer_current lx = CHR ''-'' \<and> lexer_peek lx = CHR ''-'')
                 \<or> lexer_current lx = CHR ''#'' then
           tokenize_loop (skip_comment lx)
         else if lexer_current lx = CHR 0x22 then
           (case lexer_scan_string lx of
              None \<Rightarrow> (False, lx)
            | Some lx' \<Rightarrow> tokenize_loop lx')
         else if is_digit (lexer_current lx) then
           tokenize_loop (lexer_scan_number lx)
         else if is_alpha (lexer_current lx) then
           tokenize_loop (lexer_scan_word lx)
         else (False, lx))
      else (True, lexer_add_token lx TOK_EOF []))"
  by pat_completeness auto
termination
proof (relation "measure (\<lambda>lx. length (source lx) - pos lx)")
  show "wf (measure (\<lambda>lx. length (source lx) - pos lx))" by simp
next
  fix lx :: Lexer
  assume "pos lx < length (source lx)"
  then show "(lexer_advance lx, lx) \<in> measure (\<lambda>lx. length (source lx) - pos lx)"
    by (simp add: lexer_advance_def)
next
  fix lx :: Lexer
  assume "pos lx < length (source lx)"
  then show "((lexer_advance (lexer_add_token lx TOK_NEWLINE [CHR 0x5C, CHR ''n'']))
                \<lparr>line := line lx + 1, column := 1\<rparr>, lx)
             \<in> measure (\<lambda>lx. length (source lx) - pos lx)"
    by (simp add: lexer_advance_def)
next
  fix lx :: Lexer
  assume "pos lx < length (source lx)"
    and "lexer_current lx = CHR ''-'' \<and> lexer_peek lx = CHR ''-'' \<or> lexer_current lx = CHR ''#''"
  then show "(skip_comment lx, lx) \<in> measure (\<lambda>lx. length (source lx) - pos lx)"
    using skip_comment_step [of lx] by auto
next
  fix lx lx' :: Lexer
  assume "pos lx < length (source lx)" and "lexer_current lx = CHR 0x22"
    and "lexer_scan_string lx = Some lx'"
  then show "(lx', lx) \<in> measure (\<lambda>lx. length (source lx) - pos lx)"
    using lexer_scan_string_step [of lx lx'] by auto
next
  fix lx :: Lexer
  assume "pos lx < length (source lx)" and "is_digit (lexer_current lx)"
  then show "(lexer_scan_number lx, lx) \<in> measure (\<lambda>lx. length (source lx) - pos lx)"
    using lexer_scan_number_step [of lx] by auto
next
  fix lx :: Lexer
  assume "pos lx < length (source lx)" and "is_alpha (lexer_current lx)"
  then show "(lexer_scan_word lx, lx) \<in> measure (\<lambda>lx. length (source lx) - pos lx)"
    using lexer_scan_word_step [of lx] by auto
qed

declare tokenize_loop.simps [simp del]

definition lexer_tokenize :: "Lexer \<Rightarrow> bool \<times> Lexer" where
  "lexer_tokenize lx = tokenize_loop lx"

section \<open>Syntax tree (include/nerd.h)\<close>

text \<open>A child pointer of a tree node. \<open>Null\<close> is the C null pointer and \<open>Ptr n\<close> points
  to the live node \<open>n\<close>. \<open>Dangling\<close> is a pointer to a node that has already been passed
  to \<^verbatim>\<open>ast_free\<close>: the parser leaves one behind in the branches of a block \<^verbatim>\<open>if\<close> with
  more than one statement (see \<open>first_of_block\<close>).\<close>

datatype 'a ptr = Null | Ptr 'a | Dangling

text \<open>The tagged union \<^verbatim>\<open>ASTNode\<close>, split into the node kinds that the parser builds
  in expression position and those it builds in statement position. The \<^verbatim>\<open>line\<close> field
  only feeds diagnostics and is left out. A \<^verbatim>\<open>double\<close> is modelled by the rational number
  it stands for.\<close>

datatype expr =
    NODE_NUM rat
  | NODE_STR string
  | NODE_BOOL bool
  | NODE_VAR string
  | NODE_POSITIONAL int
  | NODE_BINOP string expr expr
  | NODE_UNARYOP string expr
  | NODE_CALL "string option" string "expr list"

datatype stmt =
    NODE_RETURN int expr
  | NODE_IF expr "stmt ptr" "stmt ptr"
  | NODE_LET string expr
  | NODE_EXPR_STMT expr
  | NODE_OUT expr
  | NODE_REPEAT expr "string option" "stmt list"
  | NODE_WHILE expr "stmt list"
  | NODE_INC string "expr option"
  | NODE_DEC string "expr option"

record func_def =
  fname :: string
  fparams :: "string list"
  fbody :: "stmt list"

record type_def =
  tname :: string
  is_union :: bool

record program =
  prog_types :: "type_def list"
  prog_functions :: "func_def list"

section \<open>Parser (src/parser.c)\<close>

text \<open>The parser state is the token array from the current position on. The array ends
  with the \<^verbatim>\<open>TOK_EOF\<close> token, which \<^verbatim>\<open>parser_advance\<close> never steps over; an exhausted
  list stands for the position of that token.\<close>

definition eof_token :: Token where
  "eof_token = \<lparr>ttype = TOK_EOF, tvalue = [], tline = 0, tcolumn = 0\<rparr>"

definition parser_current :: "Token list \<Rightarrow> Token" where
  "parser_current ts = (case ts of [] \<Rightarrow> eof_token | t # _ \<Rightarrow> t)"

definition parser_check :: "Token list \<Rightarrow> TokenType \<Rightarrow> bool" where
  "parser_check ts ty \<longleftrightarrow> ttype (parser_current ts) = ty"

definition parser_at_end :: "Token list \<Rightarrow> bool" where
  "parser_at_end ts \<longleftrightarrow> ttype (parser_current ts) = TOK_EOF"

text \<open>\<^verbatim>\<open>parser_advance\<close> also returns the token it stepped over; the callers that use it
  read \<open>parser_current\<close> before advancing.\<close>

definition parser_advance :: "Token list \<Rightarrow> Token list" where
  "parser_advance ts = (if \<not> parser_at_end ts then tl ts else ts)"

definition parser_match :: "Token list \<Rightarrow> TokenType \<Rightarrow> bool \<times> Token list" where
  "parser_match ts ty = (if parser_check ts ty then (True, parser_advance ts) else (False, ts))"

definition parser_expect :: "Token list \<Rightarrow> TokenType \<Rightarrow> Token option \<times> Token list" where
  "parser_expect ts ty =
     (if parser_check ts ty then (Some (parser_current ts), parser_advance ts) else (None, ts))"

fun parser_skip_newlines :: "Token list \<Rightarrow> Token list" where
  "parser_skip_newlines [] = []"
| "parser_skip_newlines (t # ts) =
     (if ttype t = TOK_NEWLINE then parser_skip_newlines ts else t # ts)"

definition parser_at_end_of_line :: "Token list \<Rightarrow> bool" where
  "parser_at_end_of_line ts \<longleftrightarrow> parser_check ts TOK_NEWLINE \<or> parser_check ts TOK_EOF"

definition is_type_token :: "Token list \<Rightarrow> bool" where
  "is_type_token ts \<longleftrightarrow>
     (let t = ttype (parser_current ts)
      in t = TOK_NUM \<or> t = TOK_INT \<or> t = TOK_STR \<or> t = TOK_BOOL \<or> t = TOK_VOID \<or> t = TOK_LIST)"

definition is_module_token :: "Token list \<Rightarrow> bool" where
  "is_module_token ts \<longleftrightarrow>
     (let t = ttype (parser_current ts)
      in t = TOK_MATH \<or> t = TOK_STR \<or> t = TOK_LIST \<or> t = TOK_TIME \<or> t = TOK_HTTP
         \<or> t = TOK_JSON \<or> t = TOK_ERR)"

definition is_end_of_expr :: "Token list \<Rightarrow> bool" where
  "is_end_of_expr ts \<longleftrightarrow>
     (let t = ttype (parser_current ts)
      in parser_at_end_of_line ts \<or>
         t = TOK_PLUS \<or> t = TOK_MINUS \<or> t = TOK_TIMES \<or>
         t = TOK_OVER \<or> t = TOK_MOD \<or> t = TOK_EQ \<or>
         t = TOK_NEQ \<or> t = TOK_LT \<or> t = TOK_GT \<or>
         t = TOK_LTE \<or> t = TOK_GTE \<or> t = TOK_AND \<or>
         t = TOK_OR \<or> t = TOK_RET \<or> t = TOK_LET \<or>
         t = TOK_IF \<or> t = TOK_ELSE \<or> t = TOK_CALL \<or>
         t = TOK_OUT \<or> t = TOK_DONE \<or> t = TOK_REPEAT \<or>
         t = TOK_TIMES \<or> t = TOK_AS \<or> t = TOK_WHILE)"

text \<open>\<^verbatim>\<open>t >= TOK_ZERO && t <= TOK_TEN\<close>: the eleven enumerators from \<^verbatim>\<open>TOK_ZERO\<close> to
  \<^verbatim>\<open>TOK_TEN\<close> are consecutive.\<close>

definition is_number_word :: "Token list \<Rightarrow> bool" where
  "is_number_word ts \<longleftrightarrow>
     ttype (parser_current ts) \<in> set [TOK_ZERO, TOK_ONE, TOK_TWO, TOK_THREE, TOK_FOUR, TOK_FIVE,
        TOK_SIX, TOK_SEVEN, TOK_EIGHT, TOK_NINE, TOK_TEN]"

fun number_word_value :: "TokenType \<Rightarrow> rat" where
  "number_word_value TOK_ZERO = 0"
| "number_word_value TOK_ONE = 1"
| "number_word_value TOK_TWO = 2"
| "number_word_value TOK_THREE = 3"
| "number_word_value TOK_FOUR = 4"
| "number_word_value TOK_FIVE = 5"
| "number_word_value TOK_SIX = 6"
| "number_word_value TOK_SEVEN = 7"
| "number_word_value TOK_EIGHT = 8"
| "number_word_value TOK_NINE = 9"
| "number_word_value TOK_TEN = 10"
| "number_word_value _ = 0"

definition is_positional :: "Token list \<Rightarrow> bool" where
  "is_positional ts \<longleftrightarrow>
     (let t = ttype (parser_current ts)
      in t = TOK_FIRST \<or> t = TOK_SECOND \<or> t = TOK_THIRD \<or> t = TOK_FOURTH)"

fun positional_index :: "TokenType \<Rightarrow> int" where
  "positional_index TOK_FIRST = 0"
| "positional_index TOK_SECOND = 1"
| "positional_index TOK_THIRD = 2"
| "positional_index TOK_FOURTH = 3"
| "positional_index _ = 0"

text \<open>The C library's \<^verbatim>\<open>atof\<close> on the lexeme of a \<^verbatim>\<open>TOK_NUMBER\<close> token, which has the
  shape \<^verbatim>\<open>[0-9]+(\.[0-9]+)?\<close>: the model returns the exact decimal value, where C returns
  the nearest \<^verbatim>\<open>double\<close>.\<close>

definition digits_value :: "string \<Rightarrow> nat" where
  "digits_value ds = foldl (\<lambda>n c. 10 * n + (of_char c - 48)) 0 ds"

definition atof :: "string \<Rightarrow> rat" where
  "atof s =
     (let ip = takeWhile is_digit s; rest = dropWhile is_digit s
      in of_nat (digits_value ip) +
         (case rest of
            c # fs \<Rightarrow> if c = CHR ''.''
                      then (let fp = takeWhile is_digit fs
                            in of_nat (digits_value fp) / 10 ^ length fp)
                      else 0
          | [] \<Rightarrow> 0))"

text \<open>Every parse function returns the node, or \<open>None\<close> for the C \<^verbatim>\<open>NULL\<close>, together with
  the parser position it leaves behind (some callers go on after a failure).\<close>

definition parse_primary :: "Token list \<Rightarrow> expr option \<times> Token list" where
  "parse_primary ts =
     (if parser_check ts TOK_NUMBER then
        (Some (NODE_NUM (atof (tvalue (parser_current ts)))), parser_advance ts)
      else if parser_check ts TOK_STRING then
        (Some (NODE_STR (tvalue (parser_current ts))), parser_advance ts)
      else if is_number_word ts then
        (Some (NODE_NUM (number_word_value (ttype (parser_current ts)))), parser_advance ts)
      else if is_positional ts then
        (Some (NODE_POSITIONAL (positional_index (ttype (parser_current ts)))), parser_advance ts)
      else if parser_check ts TOK_IDENT \<and> tvalue (parser_current ts) = ''true'' then
        (Some (NODE_BOOL True), parser_advance ts)
      else if parser_check ts TOK_IDENT \<and> tvalue (parser_current ts) = ''false'' then
        (Some (NODE_BOOL False), parser_advance ts)
      else if parser_check ts TOK_IDENT then
        (Some (NODE_VAR (tvalue (parser_current ts))), parser_advance ts)
      else (None, ts))"

text \<open>\<^verbatim>\<open>parse_unary\<close>, \<^verbatim>\<open>parse_call\<close> and the argument loop shared by the two call
  forms of \<^verbatim>\<open>parse_call\<close>.\<close>

function parse_unary :: "Token list \<Rightarrow> expr option \<times> Token list"
  and parse_call :: "Token list \<Rightarrow> expr option \<times> Token list"
  and parse_args :: "Token list \<Rightarrow> expr list \<Rightarrow> expr list option \<times> Token list"
where
  "parse_unary ts =
     (if parser_check ts TOK_NOT then
        (case parse_unary (parser_advance ts) of
           (None, r) \<Rightarrow> (None, r)
         | (Some operand, r) \<Rightarrow> (Some (NODE_UNARYOP ''not'' operand), r))
      else if parser_check ts TOK_NEG then
        (case parse_unary (parser_advance ts) of
           (None, r) \<Rightarrow> (None, r)
         | (Some operand, r) \<Rightarrow> (Some (NODE_UNARYOP ''neg'' operand), r))
      else parse_call ts)"
| "parse_call ts =
     (if parser_check ts TOK_CALL then
        (case parser_expect (parser_advance ts) TOK_IDENT of
           (None, r) \<Rightarrow> (None, r)
         | (Some func_tok, r) \<Rightarrow>
             (case parse_args r [] of
                (None, r') \<Rightarrow> (None, r')
              | (Some args, r') \<Rightarrow> (Some (NODE_CALL None (tvalue func_tok) args), r')))
      else if is_module_token ts then
        (case parser_expect (parser_advance ts) TOK_IDENT of
           (None, r) \<Rightarrow> (None, r)
         | (Some func_tok, r) \<Rightarrow>
             (case parse_args r [] of
                (None, r') \<Rightarrow> (None, r')
              | (Some args, r') \<Rightarrow>
                  (Some (NODE_CALL (Some (tvalue (parser_current ts))) (tvalue func_tok) args), r')))
      else parse_primary ts)"
| "parse_args ts acc =
     (if \<not> is_end_of_expr ts then
        (case parse_unary ts of
           (None, r) \<Rightarrow> (None, r)
         | (Some arg, r) \<Rightarrow> parse_args r (acc @ [arg]))
      else (Some acc, ts))"
  by pat_completeness auto

lemma parser_advance_le: "length (parser_advance ts) \<le> length ts"
  by (simp add: parser_advance_def)

lemma parser_advance_lt: "\<not> parser_at_end ts \<Longrightarrow> length (parser_advance ts) < length ts"
  by (cases ts) (auto simp: parser_advance_def parser_at_end_def parser_current_def eof_token_def)

lemma parser_check_advance_lt:
  "parser_check ts ty \<Longrightarrow> ty \<noteq> TOK_EOF \<Longrightarrow> length (parser_advance ts) < length ts"
  by (rule parser_advance_lt) (simp add: parser_check_def parser_at_end_def)

lemma parser_expect_le: "length (snd (parser_expect ts ty)) \<le> length ts"
  by (simp add: parser_expect_def parser_advance_le)

lemma parser_match_le: "length (snd (parser_match ts ty)) \<le> length ts"
  by (simp add: parser_match_def parser_advance_le)

lemma parser_skip_newlines_le: "length (parser_skip_newlines ts) \<le> length ts"
  by (induction ts) auto

lemma parse_primary_le: "length (snd (parse_primary ts)) \<le> length ts"
  by (simp add: parse_primary_def parser_advance_le)

lemma parse_primary_lt:
  "fst (parse_primary ts) \<noteq> None \<Longrightarrow> length (snd (parse_primary ts)) < length ts"
  by (auto simp: parse_primary_def is_number_word_def is_positional_def Let_def
           parser_check_def parser_at_end_def
           intro!: parser_advance_lt split: if_splits)



text \<open>What a parse function does to the token list: it never grows, and a node is only
  returned after at least one token has been consumed.\<close>

definition consumes :: "Token list \<Rightarrow> 'a option \<times> Token list \<Rightarrow> bool" where
  "consumes ts res \<longleftrightarrow>
     length (snd res) \<le> length ts \<and> (fst res \<noteq> None \<longrightarrow> length (snd res) < length ts)"

lemma consumesI:
  "length r \<le> length ts \<Longrightarrow> (x \<noteq> None \<Longrightarrow> length r < length ts) \<Longrightarrow> consumes ts (x, r)"
  by (auto simp: consumes_def)

lemma consumes_le: "consumes ts res \<Longrightarrow> length (snd res) \<le> length ts"
  by (simp add: consumes_def)

lemma consumes_lt: "consumes ts (Some x, r) \<Longrightarrow> length r < length ts"
  by (simp add: consumes_def)

lemma consumes_le': "consumes ts (x, r) \<Longrightarrow> length r \<le> length ts"
  by (simp add: consumes_def)

lemma consumes_primary: "consumes ts (parse_primary ts)"
  using parse_primary_le [of ts] parse_primary_lt [of ts] by (simp add: consumes_def)

lemma consumes_wrap:
  assumes "consumes ts' (parse ts')" and "length ts' < length ts"
  shows "consumes ts (case parse ts' of (None, r) \<Rightarrow> (None, r) | (Some x, r) \<Rightarrow> (Some (f x), r))"
  using assms by (auto simp: consumes_def split: prod.splits option.splits)

lemma parse_expr_dom_len:
  "parse_unary_parse_call_parse_args_dom (Inl ts) \<Longrightarrow> consumes ts (parse_unary ts)"
  "parse_unary_parse_call_parse_args_dom (Inr (Inl ts2)) \<Longrightarrow> consumes ts2 (parse_call ts2)"
  "parse_unary_parse_call_parse_args_dom (Inr (Inr (ts3, acc))) \<Longrightarrow>
     length (snd (parse_args ts3 acc)) \<le> length ts3"
proof (induct rule: parse_unary_parse_call_parse_args.pinduct)
  case (1 ts)
  show ?case
  proof (cases "parser_check ts TOK_NOT")
    case True
    then have "length (parser_advance ts) < length ts"
      by (simp add: parser_check_advance_lt)
    with True 1 show ?thesis
      by (simp add: parse_unary.psimps consumes_wrap)
  next
    case notnot: False
    show ?thesis
    proof (cases "parser_check ts TOK_NEG")
      case True
      then have "length (parser_advance ts) < length ts"
        by (simp add: parser_check_advance_lt)
      with True notnot 1 show ?thesis
        by (simp add: parse_unary.psimps consumes_wrap)
    next
      case False
      with notnot 1 show ?thesis by (simp add: parse_unary.psimps)
    qed
  qed
next
  case (2 ts)
  have step: "consumes ts
      (case parser_expect (parser_advance ts) TOK_IDENT of
         (None, r) \<Rightarrow> (None, r)
       | (Some func_tok, r) \<Rightarrow>
           (case parse_args r [] of
              (None, r') \<Rightarrow> (None, r')
            | (Some args, r') \<Rightarrow> (Some (mk func_tok args), r')))"
    if lt: "length (parser_advance ts) < length ts"
      and ih: "\<And>x y x2. (x, y) = parser_expect (parser_advance ts) TOK_IDENT \<Longrightarrow> x = Some x2
                 \<Longrightarrow> length (snd (parse_args y [])) \<le> length y"
    for mk :: "Token \<Rightarrow> expr list \<Rightarrow> expr"
  proof (cases "parser_expect (parser_advance ts) TOK_IDENT")
    case (Pair x y)
    have le: "length y \<le> length (parser_advance ts)"
      using parser_expect_le [of "parser_advance ts" TOK_IDENT] Pair by simp
    show ?thesis
    proof (cases x)
      case None
      with Pair le lt show ?thesis by (simp add: consumes_def)
    next
      case (Some x2)
      with ih [of x y x2] Pair have "length (snd (parse_args y [])) \<le> length y" by simp
      with Pair Some le lt show ?thesis
        by (auto simp: consumes_def split: prod.splits option.splits)
    qed
  qed
  show ?case
  proof (cases "parser_check ts TOK_CALL")
    case True
    then have lt: "length (parser_advance ts) < length ts"
      by (simp add: parser_check_advance_lt)
    have "consumes ts
      (case parser_expect (parser_advance ts) TOK_IDENT of
         (None, r) \<Rightarrow> (None, r)
       | (Some func_tok, r) \<Rightarrow>
           (case parse_args r [] of
              (None, r') \<Rightarrow> (None, r')
            | (Some args, r') \<Rightarrow> (Some (NODE_CALL None (tvalue func_tok) args), r')))"
      using lt "2.hyps"(2) [OF True] by (rule step)
    with True 2(1) show ?thesis by (simp add: parse_call.psimps)
  next
    case nocall: False
    show ?thesis
    proof (cases "is_module_token ts")
      case True
      then have "\<not> parser_at_end ts"
        by (auto simp: is_module_token_def parser_at_end_def Let_def)
      then have lt: "length (parser_advance ts) < length ts"
        by (rule parser_advance_lt)
      have "consumes ts
        (case parser_expect (parser_advance ts) TOK_IDENT of
           (None, r) \<Rightarrow> (None, r)
         | (Some func_tok, r) \<Rightarrow>
             (case parse_args r [] of
                (None, r') \<Rightarrow> (None, r')
              | (Some args, r') \<Rightarrow>
                  (Some (NODE_CALL (Some (tvalue (parser_current ts))) (tvalue func_tok) args),
                   r')))"
        using lt "2.hyps"(3) [OF nocall True] by (rule step)
      with True nocall 2(1) show ?thesis by (simp add: parse_call.psimps)
    next
      case False
      with nocall 2 show ?thesis by (simp add: parse_call.psimps consumes_primary)
    qed
  qed
next
  case (3 ts acc)
  show ?case
  proof (cases "is_end_of_expr ts")
    case True
    with 3 show ?thesis by (simp add: parse_args.psimps)
  next
    case False
    with 3 have c: "consumes ts (parse_unary ts)" by simp
    show ?thesis
    proof (cases "parse_unary ts")
      case (Pair x y)
      show ?thesis
      proof (cases x)
        case None
        with Pair c False 3 show ?thesis
          by (simp add: parse_args.psimps consumes_def)
      next
        case (Some x2)
        with Pair c have "length y < length ts" by (simp add: consumes_def)
        moreover from "3.hyps"(3) [of x y x2] False Pair Some
        have "length (snd (parse_args y (acc @ [x2]))) \<le> length y" by simp
        ultimately show ?thesis using Pair Some False 3
          by (simp add: parse_args.psimps)
      qed
    qed
  qed
qed

lemma expect_after_advance_lt:
  "\<not> parser_at_end ts \<Longrightarrow> (x, y) = parser_expect (parser_advance ts) ty \<Longrightarrow>
   length y < length ts"
  using parser_expect_le [of "parser_advance ts" ty] parser_advance_lt [of ts]
  by (cases "parser_expect (parser_advance ts) ty") simp

lemma check_not_at_end: "parser_check ts ty \<Longrightarrow> ty \<noteq> TOK_EOF \<Longrightarrow> \<not> parser_at_end ts"
  by (simp add: parser_check_def parser_at_end_def)

lemma is_module_token_not_at_end: "is_module_token ts \<Longrightarrow> \<not> parser_at_end ts"
  by (auto simp: is_module_token_def parser_at_end_def Let_def)

lemma consumes_lt_sym: "(Some x, y) = res \<Longrightarrow> consumes ts res \<Longrightarrow> length y < length ts"
  by (auto simp: consumes_def)

lemma parse_expr_all_dom: "All parse_unary_parse_call_parse_args_dom"
proof (rule "parse_unary_parse_call_parse_args.termination"
    [where R = "measures [\<lambda>x. case x of Inl ts \<Rightarrow> length ts | Inr (Inl ts) \<Rightarrow> length ts
                                   | Inr (Inr (ts, acc)) \<Rightarrow> length ts,
                            \<lambda>x. case x of Inl ts \<Rightarrow> 1 | Inr (Inl ts) \<Rightarrow> 0
                                   | Inr (Inr (ts, acc)) \<Rightarrow> 2]"])
  show "wf (measures [\<lambda>x. case x of Inl ts \<Rightarrow> length ts | Inr (Inl ts) \<Rightarrow> length ts
                                   | Inr (Inr (ts, acc)) \<Rightarrow> length ts,
                            \<lambda>x. case x of Inl ts \<Rightarrow> 1 | Inr (Inl ts) \<Rightarrow> 0
                                   | Inr (Inr (ts, acc)) \<Rightarrow> (2::nat)])"
    by simp
qed (auto simp: parser_check_advance_lt
          dest!: parse_expr_dom_len(1)
          dest: consumes_lt_sym
          intro: expect_after_advance_lt [OF check_not_at_end]
                 expect_after_advance_lt [OF is_module_token_not_at_end])

termination parse_unary
  by (rule parse_expr_all_dom)

declare parse_unary.simps [simp del] parse_call.simps [simp del] parse_args.simps [simp del]

lemma consumes_unary: "consumes ts (parse_unary ts)"
  using parse_expr_all_dom by (auto intro: parse_expr_dom_len(1))

lemma consumes_call: "consumes ts (parse_call ts)"
  using parse_expr_all_dom by (auto intro: parse_expr_dom_len(2))

lemma parse_args_le: "length (snd (parse_args ts acc)) \<le> length ts"
  using parse_expr_all_dom by (auto intro: parse_expr_dom_len(3))

lemma loop_call_lt:
  "\<not> parser_at_end ts \<Longrightarrow> (Some right, r) = parse (parser_advance ts) \<Longrightarrow>
   consumes (parser_advance ts) (parse (parser_advance ts)) \<Longrightarrow> length r < length ts"
  using parser_advance_lt [of ts] by (auto simp: consumes_def dest: sym)

lemma loop_le_step:
  assumes c: "consumes ts' (parse ts')" and lt: "length ts' < length ts"
    and ih: "\<And>x y x2. (x, y) = parse ts' \<Longrightarrow> x = Some x2 \<Longrightarrow>
               length (snd (loop x2 y)) \<le> length y"
  shows "length (snd (case parse ts' of (None, r) \<Rightarrow> (None, r)
                      | (Some right, r) \<Rightarrow> loop right r)) \<le> length ts"
proof (cases "parse ts'")
  case (Pair x r)
  with c have le: "length r \<le> length ts'" by (simp add: consumes_def)
  show ?thesis
  proof (cases x)
    case None
    with Pair le lt show ?thesis by simp
  next
    case (Some right)
    from ih [of x r right] Pair Some have "length (snd (loop right r)) \<le> length r" by simp
    with Pair Some le lt show ?thesis by simp
  qed
qed

lemma consumes_then_loop:
  assumes "consumes ts (parse ts)"
    and "\<And>left r. length (snd (loop left r)) \<le> length r"
  shows "consumes ts (case parse ts of (None, r) \<Rightarrow> (None, r) | (Some left, r) \<Rightarrow> loop left r)"
proof (cases "parse ts")
  case (Pair x r)
  show ?thesis
  proof (cases x)
    case None
    with Pair assms(1) show ?thesis by (simp add: consumes_def)
  next
    case (Some left)
    with Pair assms(1) have "length r < length ts" by (simp add: consumes_def)
    with Pair Some assms(2) [of left r] show ?thesis by (simp add: consumes_def)
  qed
qed

text \<open>The binary levels. Each C function parses one operand of the next tighter level and
  then runs a loop that folds further operands into a left-leaning tree.\<close>

function parse_multiplicative_loop :: "expr \<Rightarrow> Token list \<Rightarrow> expr option \<times> Token list" where
  "parse_multiplicative_loop left ts =
     (if parser_check ts TOK_TIMES \<or> parser_check ts TOK_OVER \<or> parser_check ts TOK_MOD then
        (case parse_unary (parser_advance ts) of
           (None, r) \<Rightarrow> (None, r)
         | (Some right, r) \<Rightarrow>
             parse_multiplicative_loop (NODE_BINOP (tvalue (parser_current ts)) left right) r)
      else (Some left, ts))"
  by pat_completeness auto
termination
  by (relation "measure (\<lambda>(left, ts). length ts)")
     (auto intro!: loop_call_lt [where parse = parse_unary] consumes_unary
           simp: check_not_at_end)

declare parse_multiplicative_loop.simps [simp del]

lemma parse_multiplicative_loop_le: "length (snd (parse_multiplicative_loop left ts)) \<le> length ts"
proof (induction left ts rule: parse_multiplicative_loop.induct)
  case (1 left ts)
  show ?case
  proof (cases "parser_check ts TOK_TIMES \<or> parser_check ts TOK_OVER \<or> parser_check ts TOK_MOD")
    case True
    then have lt: "length (parser_advance ts) < length ts"
      by (auto simp: parser_check_advance_lt)
    have "length (snd (case parse_unary (parser_advance ts) of
             (None, r) \<Rightarrow> (None, r)
           | (Some right, r) \<Rightarrow>
               parse_multiplicative_loop (NODE_BINOP (tvalue (parser_current ts)) left right) r))
          \<le> length ts"
      using consumes_unary lt "1.IH" [OF True] by (rule loop_le_step)
    with True show ?thesis by (subst parse_multiplicative_loop.simps) simp
  next
    case False
    then show ?thesis by (subst parse_multiplicative_loop.simps) simp
  qed
qed

definition parse_multiplicative :: "Token list \<Rightarrow> expr option \<times> Token list" where
  "parse_multiplicative ts =
     (case parse_unary ts of
        (None, r) \<Rightarrow> (None, r)
      | (Some left, r) \<Rightarrow> parse_multiplicative_loop left r)"

lemma consumes_multiplicative: "consumes ts (parse_multiplicative ts)"
  unfolding parse_multiplicative_def
  by (rule consumes_then_loop [OF consumes_unary parse_multiplicative_loop_le])


function parse_additive_loop :: "expr \<Rightarrow> Token list \<Rightarrow> expr option \<times> Token list" where
  "parse_additive_loop left ts =
     (if parser_check ts TOK_PLUS \<or> parser_check ts TOK_MINUS then
        (case parse_multiplicative (parser_advance ts) of
           (None, r) \<Rightarrow> (None, r)
         | (Some right, r) \<Rightarrow>
             parse_additive_loop (NODE_BINOP (tvalue (parser_current ts)) left right) r)
      else (Some left, ts))"
  by pat_completeness auto
termination
  by (relation "measure (\<lambda>(left, ts). length ts)")
     (auto intro!: loop_call_lt [where parse = parse_multiplicative] consumes_multiplicative
           simp: check_not_at_end)

declare parse_additive_loop.simps [simp del]

lemma parse_additive_loop_le: "length (snd (parse_additive_loop left ts)) \<le> length ts"
proof (induction left ts rule: parse_additive_loop.induct)
  case (1 left ts)
  show ?case
  proof (cases "parser_check ts TOK_PLUS \<or> parser_check ts TOK_MINUS")
    case True
    then have lt: "length (parser_advance ts) < length ts"
      by (auto simp: parser_check_advance_lt)
    have "length (snd (case parse_multiplicative (parser_advance ts) of
             (None, r) \<Rightarrow> (None, r)
           | (Some right, r) \<Rightarrow>
               parse_additive_loop (NODE_BINOP (tvalue (parser_current ts)) left right) r))
          \<le> length ts"
      using consumes_multiplicative lt "1.IH" [OF True] by (rule loop_le_step)
    with True show ?thesis by (subst parse_additive_loop.simps) simp
  next
    case False
    then show ?thesis by (subst parse_additive_loop.simps) simp
  qed
qed

definition parse_additive :: "Token list \<Rightarrow> expr option \<times> Token list" where
  "parse_additive ts =
     (case parse_multiplicative ts of
        (None, r) \<Rightarrow> (None, r)
      | (Some left, r) \<Rightarrow> parse_additive_loop left r)"

lemma consumes_additive: "consumes ts (parse_additive ts)"
  unfolding parse_additive_def
  by (rule consumes_then_loop [OF consumes_multiplicative parse_additive_loop_le])

function parse_comparison_loop :: "expr \<Rightarrow> Token list \<Rightarrow> expr option \<times> Token list" where
  "parse_comparison_loop left ts =
     (if parser_check ts TOK_EQ \<or> parser_check ts TOK_NEQ \<or> parser_check ts TOK_LT
         \<or> parser_check ts TOK_GT \<or> parser_check ts TOK_LTE \<or> parser_check ts TOK_GTE then
        (case parse_additive (parser_advance ts) of
           (None, r) \<Rightarrow> (None, r)
         | (Some right, r) \<Rightarrow>
             parse_comparison_loop (NODE_BINOP (tvalue (parser_current ts)) left right) r)
      else (Some left, ts))"
  by pat_completeness auto
termination
  by (relation "measure (\<lambda>(left, ts). length ts)")
     (auto intro!: loop_call_lt [where parse = parse_additive] consumes_additive
           simp: check_not_at_end)

declare parse_comparison_loop.simps [simp del]

lemma parse_comparison_loop_le: "length (snd (parse_comparison_loop left ts)) \<le> length ts"
proof (induction left ts rule: parse_comparison_loop.induct)
  case (1 left ts)
  show ?case
  proof (cases "parser_check ts TOK_EQ \<or> parser_check ts TOK_NEQ \<or> parser_check ts TOK_LT
         \<or> parser_check ts TOK_GT \<or> parser_check ts TOK_LTE \<or> parser_check ts TOK_GTE")
    case True
    then have lt: "length (parser_advance ts) < length ts"
      by (auto simp: parser_check_advance_lt)
    have "length (snd (case parse_additive (parser_advance ts) of
             (None, r) \<Rightarrow> (None, r)
           | (Some right, r) \<Rightarrow>
               parse_comparison_loop (NODE_BINOP (tvalue (parser_current ts)) left right) r))
          \<le> length ts"
      using consumes_additive lt "1.IH" [OF True] by (rule loop_le_step)
    with True show ?thesis by (subst parse_comparison_loop.simps) simp
  next
    case False
    then show ?thesis by (subst parse_comparison_loop.simps) simp
  qed
qed

definition parse_comparison :: "Token list \<Rightarrow> expr option \<times> Token list" where
  "parse_comparison ts =
     (case parse_additive ts of
        (None, r) \<Rightarrow> (None, r)
      | (Some left, r) \<Rightarrow> parse_comparison_loop left r)"

lemma consumes_comparison: "consumes ts (parse_comparison ts)"
  unfolding parse_comparison_def
  by (rule consumes_then_loop [OF consumes_additive parse_comparison_loop_le])

function parse_and_loop :: "expr \<Rightarrow> Token list \<Rightarrow> expr option \<times> Token list" where
  "parse_and_loop left ts =
     (if parser_check ts TOK_AND then
        (case parse_comparison (parser_advance ts) of
           (None, r) \<Rightarrow> (None, r)
         | (Some right, r) \<Rightarrow>
             parse_and_loop (NODE_BINOP ''and'' left right) r)
      else (Some left, ts))"
  by pat_completeness auto
termination
  by (relation "measure (\<lambda>(left, ts). length ts)")
     (auto intro!: loop_call_lt [where parse = parse_comparison] consumes_comparison
           simp: check_not_at_end)

declare parse_and_loop.simps [simp del]

lemma parse_and_loop_le: "length (snd (parse_and_loop left ts)) \<le> length ts"
proof (induction left ts rule: parse_and_loop.induct)
  case (1 left ts)
  show ?case
  proof (cases "parser_check ts TOK_AND")
    case True
    then have lt: "length (parser_advance ts) < length ts"
      by (auto simp: parser_check_advance_lt)
    have "length (snd (case parse_comparison (parser_advance ts) of
             (None, r) \<Rightarrow> (None, r)
           | (Some right, r) \<Rightarrow>
               parse_and_loop (NODE_BINOP ''and'' left right) r))
          \<le> length ts"
      using consumes_comparison lt "1.IH" [OF True] by (rule loop_le_step)
    with True show ?thesis by (subst parse_and_loop.simps) simp
  next
    case False
    then show ?thesis by (subst parse_and_loop.simps) simp
  qed
qed

definition parse_and :: "Token list \<Rightarrow> expr option \<times> Token list" where
  "parse_and ts =
     (case parse_comparison ts of
        (None, r) \<Rightarrow> (None, r)
      | (Some left, r) \<Rightarrow> parse_and_loop left r)"

lemma consumes_and: "consumes ts (parse_and ts)"
  unfolding parse_and_def
  by (rule consumes_then_loop [OF consumes_comparison parse_and_loop_le])

function parse_or_loop :: "expr \<Rightarrow> Token list \<Rightarrow> expr option \<times> Token list" where
  "parse_or_loop left ts =
     (if parser_check ts TOK_OR \<and> \<not> parser_at_end_of_line ts then
        (case parse_and (parser_advance ts) of
           (None, r) \<Rightarrow> (None, r)
         | (Some right, r) \<Rightarrow>
             parse_or_loop (NODE_BINOP ''or'' left right) r)
      else (Some left, ts))"
  by pat_completeness auto
termination
  by (relation "measure (\<lambda>(left, ts). length ts)")
     (auto intro!: loop_call_lt [where parse = parse_and] consumes_and
           simp: check_not_at_end)

declare parse_or_loop.simps [simp del]

lemma parse_or_loop_le: "length (snd (parse_or_loop left ts)) \<le> length ts"
proof (induction left ts rule: parse_or_loop.induct)
  case (1 left ts)
  show ?case
  proof (cases "parser_check ts TOK_OR \<and> \<not> parser_at_end_of_line ts")
    case True
    then have lt: "length (parser_advance ts) < length ts"
      by (auto simp: parser_check_advance_lt)
    have "length (snd (case parse_and (parser_advance ts) of
             (None, r) \<Rightarrow> (None, r)
           | (Some right, r) \<Rightarrow>
               parse_or_loop (NODE_BINOP ''or'' left right) r))
          \<le> length ts"
      using consumes_and lt "1.IH" [OF True] by (rule loop_le_step)
    with True show ?thesis by (subst parse_or_loop.simps) auto
  next
    case False
    then show ?thesis by (subst parse_or_loop.simps) auto
  qed
qed

definition parse_or :: "Token list \<Rightarrow> expr option \<times> Token list" where
  "parse_or ts =
     (case parse_and ts of
        (None, r) \<Rightarrow> (None, r)
      | (Some left, r) \<Rightarrow> parse_or_loop left r)"

lemma consumes_or: "consumes ts (parse_or ts)"
  unfolding parse_or_def
  by (rule consumes_then_loop [OF consumes_and parse_or_loop_le])

definition parse_expr :: "Token list \<Rightarrow> expr option \<times> Token list" where
  "parse_expr ts = parse_or ts"

lemma consumes_expr: "consumes ts (parse_expr ts)"
  by (simp add: parse_expr_def consumes_or)

text \<open>The optional \<^verbatim>\<open>ok\<close> or \<^verbatim>\<open>err\<close> after \<^verbatim>\<open>ret\<close>: the variant and the position after it.\<close>

definition ret_variant :: "Token list \<Rightarrow> int \<times> Token list" where
  "ret_variant ts =
     (if parser_check ts TOK_OK then (1, parser_advance ts)
      else if parser_check ts TOK_ERR then (2, parser_advance ts)
      else (0, ts))"

definition parse_inline_stmt :: "Token list \<Rightarrow> stmt option \<times> Token list" where
  "parse_inline_stmt ts =
     (if parser_check ts TOK_RET then
        (case parse_expr (snd (ret_variant (parser_advance ts))) of
           (None, r) \<Rightarrow> (None, r)
         | (Some v, r) \<Rightarrow> (Some (NODE_RETURN (fst (ret_variant (parser_advance ts))) v), r))
      else if parser_check ts TOK_OUT then
        (case parse_expr (parser_advance ts) of
           (None, r) \<Rightarrow> (None, r)
         | (Some v, r) \<Rightarrow> (Some (NODE_OUT v), r))
      else if parser_check ts TOK_LET then
        (case parser_expect (parser_advance ts) TOK_IDENT of
           (None, r) \<Rightarrow> (None, r)
         | (Some name_tok, r) \<Rightarrow>
             (case parse_expr r of
                (None, r') \<Rightarrow> (None, r')
              | (Some v, r') \<Rightarrow> (Some (NODE_LET (tvalue name_tok) v), r')))
      else
        (case parse_expr ts of
           (None, r) \<Rightarrow> (None, r)
         | (Some e, r) \<Rightarrow> (Some (NODE_EXPR_STMT e), r)))"

text \<open>The statement forms of \<^verbatim>\<open>parse_stmt\<close> that do not contain statements, each from
  the position after its keyword.\<close>

definition parse_stmt_ret :: "Token list \<Rightarrow> stmt option \<times> Token list" where
  "parse_stmt_ret ts =
     (case parse_expr (snd (ret_variant ts)) of
        (None, r) \<Rightarrow> (None, r)
      | (Some v, r) \<Rightarrow>
          (Some (NODE_RETURN (fst (ret_variant ts)) v), snd (parser_match r TOK_NEWLINE)))"

definition parse_stmt_out :: "Token list \<Rightarrow> stmt option \<times> Token list" where
  "parse_stmt_out ts =
     (case parse_expr ts of
        (None, r) \<Rightarrow> (None, r)
      | (Some v, r) \<Rightarrow> (Some (NODE_OUT v), snd (parser_match r TOK_NEWLINE)))"

text \<open>\<^verbatim>\<open>inc\<close> and \<^verbatim>\<open>dec\<close>: the amount is whatever \<^verbatim>\<open>parse_expr\<close> returns, a failure
  included (the C code does not test it).\<close>

definition parse_stmt_inc :: "Token list \<Rightarrow> stmt option \<times> Token list" where
  "parse_stmt_inc ts =
     (case parser_expect ts TOK_IDENT of
        (None, r) \<Rightarrow> (None, r)
      | (Some var_tok, r) \<Rightarrow>
          if \<not> parser_at_end_of_line r then
            (case parse_expr r of
               (amount, r') \<Rightarrow> (Some (NODE_INC (tvalue var_tok) amount),
                                snd (parser_match r' TOK_NEWLINE)))
          else (Some (NODE_INC (tvalue var_tok) None), snd (parser_match r TOK_NEWLINE)))"

definition parse_stmt_dec :: "Token list \<Rightarrow> stmt option \<times> Token list" where
  "parse_stmt_dec ts =
     (case parser_expect ts TOK_IDENT of
        (None, r) \<Rightarrow> (None, r)
      | (Some var_tok, r) \<Rightarrow>
          if \<not> parser_at_end_of_line r then
            (case parse_expr r of
               (amount, r') \<Rightarrow> (Some (NODE_DEC (tvalue var_tok) amount),
                                snd (parser_match r' TOK_NEWLINE)))
          else (Some (NODE_DEC (tvalue var_tok) None), snd (parser_match r TOK_NEWLINE)))"

definition parse_stmt_let :: "Token list \<Rightarrow> stmt option \<times> Token list" where
  "parse_stmt_let ts =
     (case parser_expect ts TOK_IDENT of
        (None, r) \<Rightarrow> (None, r)
      | (Some name_tok, r) \<Rightarrow>
          (case parse_expr r of
             (None, r') \<Rightarrow> (None, r')
           | (Some v, r') \<Rightarrow>
               (Some (NODE_LET (tvalue name_tok) v), snd (parser_match r' TOK_NEWLINE))))"

definition parse_stmt_expr :: "Token list \<Rightarrow> stmt option \<times> Token list" where
  "parse_stmt_expr ts =
     (case parse_expr ts of
        (None, r) \<Rightarrow> (None, r)
      | (Some e, r) \<Rightarrow> (Some (NODE_EXPR_STMT e), snd (parser_match r TOK_NEWLINE)))"

text \<open>The head of a \<^verbatim>\<open>repeat\<close> statement, from the position after the keyword up to the
  body: the count (a primary), the \<^verbatim>\<open>times\<close> keyword, the optional \<^verbatim>\<open>as NAME\<close> and the
  newlines.\<close>

definition parse_repeat_head :: "Token list \<Rightarrow> (expr \<times> string option) option \<times> Token list" where
  "parse_repeat_head ts =
     (case parse_primary ts of
        (None, r) \<Rightarrow> (None, r)
      | (Some count, r) \<Rightarrow>
          (case parser_expect r TOK_TIMES of
             (None, r1) \<Rightarrow> (None, r1)
           | (Some times_tok, r1) \<Rightarrow>
               if parser_check r1 TOK_AS then
                 (case parser_expect (parser_advance r1) TOK_IDENT of
                    (None, r2) \<Rightarrow> (None, r2)
                  | (Some var_tok, r2) \<Rightarrow>
                      (Some (count, Some (tvalue var_tok)),
                       parser_skip_newlines (snd (parser_match r2 TOK_NEWLINE))))
               else (Some (count, None),
                     parser_skip_newlines (snd (parser_match r1 TOK_NEWLINE)))))"

text \<open>What the block \<^verbatim>\<open>if\<close> keeps of a branch. A branch of one statement is unwrapped.
  From a longer branch the C code copies the pointer to the first statement and then frees
  the whole block, that statement included.\<close>

fun first_of_block :: "stmt list \<Rightarrow> stmt ptr" where
  "first_of_block [] = Null"
| "first_of_block [s] = Ptr s"
| "first_of_block (s # s' # ss) = Dangling"

definition opt_ptr :: "'a option \<Rightarrow> 'a ptr" where
  "opt_ptr x = (case x of None \<Rightarrow> Null | Some s \<Rightarrow> Ptr s)"

text \<open>The end of a block \<^verbatim>\<open>if\<close>: unless the current token is \<^verbatim>\<open>if\<close>, a \<^verbatim>\<open>done\<close> is
  expected (its absence is reported but not acted on) and a newline is skipped.\<close>

definition if_block_end :: "Token list \<Rightarrow> Token list" where
  "if_block_end ts =
     (if \<not> parser_check ts TOK_IF
      then snd (parser_match (snd (parser_expect ts TOK_DONE)) TOK_NEWLINE)
      else ts)"

text \<open>\<^verbatim>\<open>parse_stmt\<close> and the statement loops of its block forms. \<open>parse_block stop_else\<close>
  collects statements until \<^verbatim>\<open>done\<close> or the end of input and, in the then-branch of a
  block \<^verbatim>\<open>if\<close> (\<open>stop_else\<close>), also until \<^verbatim>\<open>else\<close>.\<close>

function parse_stmt :: "Token list \<Rightarrow> stmt option \<times> Token list"
  and parse_block :: "bool \<Rightarrow> Token list \<Rightarrow> stmt list \<Rightarrow> stmt list option \<times> Token list"
where
  "parse_stmt ts =
     (if parser_check ts TOK_RET then parse_stmt_ret (parser_advance ts)
      else if parser_check ts TOK_OUT then parse_stmt_out (parser_advance ts)
      else if parser_check ts TOK_INC then parse_stmt_inc (parser_advance ts)
      else if parser_check ts TOK_DEC then parse_stmt_dec (parser_advance ts)
      else if parser_check ts TOK_IF then
        (case parse_comparison (parser_advance ts) of
           (None, r) \<Rightarrow> (None, r)
         | (Some condition, r) \<Rightarrow>
             if parser_check r TOK_NEWLINE then
               (case parse_block True (parser_skip_newlines (snd (parser_match r TOK_NEWLINE))) [] of
                  (None, r1) \<Rightarrow> (None, r1)
                | (Some then_block, r1) \<Rightarrow>
                    if parser_check r1 TOK_ELSE then
                      (if parser_check
                            (parser_skip_newlines (snd (parser_match (parser_advance r1) TOK_NEWLINE)))
                            TOK_IF then
                         (case parse_stmt
                                 (parser_skip_newlines
                                    (snd (parser_match (parser_advance r1) TOK_NEWLINE))) of
                            (else_stmt, r2) \<Rightarrow>
                              (Some (NODE_IF condition (first_of_block then_block) (opt_ptr else_stmt)),
                               if_block_end r2))
                       else
                         (case parse_block False
                                 (parser_skip_newlines
                                    (snd (parser_match (parser_advance r1) TOK_NEWLINE))) [] of
                            (None, r2) \<Rightarrow> (None, r2)
                          | (Some else_block, r2) \<Rightarrow>
                              (Some (NODE_IF condition (first_of_block then_block)
                                       (first_of_block else_block)),
                               if_block_end r2)))
                    else (Some (NODE_IF condition (first_of_block then_block) Null),
                          if_block_end r1))
             else
               (case parse_inline_stmt r of
                  (None, r1) \<Rightarrow> (None, r1)
                | (Some then_stmt, r1) \<Rightarrow>
                    if parser_check r1 TOK_ELSE then
                      (if parser_check (parser_advance r1) TOK_IF then
                         (case parse_stmt (parser_advance r1) of
                            (else_stmt, r2) \<Rightarrow>
                              (Some (NODE_IF condition (Ptr then_stmt) (opt_ptr else_stmt)), r2))
                       else
                         (case parse_inline_stmt (parser_advance r1) of
                            (else_stmt, r2) \<Rightarrow>
                              (Some (NODE_IF condition (Ptr then_stmt) (opt_ptr else_stmt)),
                               snd (parser_match r2 TOK_NEWLINE))))
                    else (Some (NODE_IF condition (Ptr then_stmt) Null),
                          snd (parser_match r1 TOK_NEWLINE))))
      else if parser_check ts TOK_LET then parse_stmt_let (parser_advance ts)
      else if parser_check ts TOK_REPEAT then
        (case parse_repeat_head (parser_advance ts) of
           (None, r) \<Rightarrow> (None, r)
         | (Some (count, var_name), r) \<Rightarrow>
             (case parse_block False r [] of
                (None, r1) \<Rightarrow> (None, r1)
              | (Some body, r1) \<Rightarrow>
                  (case parser_expect r1 TOK_DONE of
                     (None, r2) \<Rightarrow> (None, r2)
                   | (Some done_tok, r2) \<Rightarrow>
                       (Some (NODE_REPEAT count var_name body),
                        snd (parser_match r2 TOK_NEWLINE)))))
      else if parser_check ts TOK_WHILE then
        (case parse_comparison (parser_advance ts) of
           (None, r) \<Rightarrow> (None, r)
         | (Some condition, r) \<Rightarrow>
             (case parse_block False (parser_skip_newlines (snd (parser_match r TOK_NEWLINE))) [] of
                (None, r1) \<Rightarrow> (None, r1)
              | (Some body, r1) \<Rightarrow>
                  (case parser_expect r1 TOK_DONE of
                     (None, r2) \<Rightarrow> (None, r2)
                   | (Some done_tok, r2) \<Rightarrow>
                       (Some (NODE_WHILE condition body),
                        snd (parser_match r2 TOK_NEWLINE)))))
      else parse_stmt_expr ts)"
| "parse_block stop_else ts acc =
     (if \<not> parser_at_end ts \<and> \<not> (stop_else \<and> parser_check ts TOK_ELSE)
         \<and> \<not> parser_check ts TOK_DONE then
        (if parser_check ts TOK_NEWLINE then parse_block stop_else (parser_advance ts) acc
         else
           (case parse_stmt ts of
              (None, r) \<Rightarrow> (None, r)
            | (Some stmt, r) \<Rightarrow> parse_block stop_else (parser_skip_newlines r) (acc @ [stmt])))
      else (Some acc, ts))"
  by pat_completeness auto


lemma skipnl_le: "length (parser_skip_newlines (snd (parser_match r ty))) \<le> length r"
  using parser_skip_newlines_le [of "snd (parser_match r ty)"] parser_match_le [of r ty]
  by simp

lemma match_le_trans: "length r \<le> n \<Longrightarrow> length (snd (parser_match r ty)) \<le> n"
  using parser_match_le [of r ty] by simp

lemma if_block_end_le: "length (if_block_end r) \<le> length r"
  using parser_match_le [of "snd (parser_expect r TOK_DONE)" TOK_NEWLINE]
    parser_expect_le [of r TOK_DONE]
  by (simp add: if_block_end_def)

lemma ret_variant_le: "length (snd (ret_variant ts)) \<le> length ts"
  by (simp add: ret_variant_def parser_advance_le)

lemma after_expr_le:
  "length (snd (case parse_expr ts of (None, r) \<Rightarrow> (None, r)
                | (Some v, r) \<Rightarrow> (Some (f v), g r))) \<le> length ts"
  if "\<And>r. length (g r) \<le> length r"
  using consumes_expr [of ts] that [of "snd (parse_expr ts)"]
  by (auto simp: consumes_def split: prod.splits option.splits)

lemma parse_stmt_ret_le: "length (snd (parse_stmt_ret ts)) \<le> length ts"
proof -
  have "length (snd (parse_stmt_ret ts)) \<le> length (snd (ret_variant ts))"
    unfolding parse_stmt_ret_def by (rule after_expr_le) (rule parser_match_le)
  with ret_variant_le [of ts] show ?thesis by simp
qed

lemma parse_stmt_out_le: "length (snd (parse_stmt_out ts)) \<le> length ts"
  unfolding parse_stmt_out_def by (rule after_expr_le) (rule parser_match_le)

lemma parse_stmt_expr_consumes: "consumes ts (parse_stmt_expr ts)"
  using consumes_expr [of ts] parser_match_le [of "snd (parse_expr ts)" TOK_NEWLINE]
  by (auto simp: parse_stmt_expr_def consumes_def split: prod.splits option.splits)

lemma parse_stmt_let_le: "length (snd (parse_stmt_let ts)) \<le> length ts"
proof (cases "parser_expect ts TOK_IDENT")
  case (Pair x r)
  with parser_expect_le [of ts TOK_IDENT] have le: "length r \<le> length ts" by simp
  have "length (snd (case parse_expr r of (None, r') \<Rightarrow> (None, r')
           | (Some v, r') \<Rightarrow> (Some (NODE_LET n v), snd (parser_match r' TOK_NEWLINE))))
         \<le> length r" for n
    by (rule after_expr_le) (rule parser_match_le)
  with Pair le show ?thesis
    by (cases x) (auto simp: parse_stmt_let_def intro: order_trans)
qed

lemma parse_stmt_inc_le: "length (snd (parse_stmt_inc ts)) \<le> length ts"
proof (cases "parser_expect ts TOK_IDENT")
  case (Pair x r)
  with parser_expect_le [of ts TOK_IDENT] have le: "length r \<le> length ts" by simp
  have "length (snd (parser_match (snd (parse_expr r)) TOK_NEWLINE)) \<le> length r"
    using consumes_expr [of r] parser_match_le [of "snd (parse_expr r)" TOK_NEWLINE]
    by (simp add: consumes_def)
  moreover have "length (snd (parser_match r TOK_NEWLINE)) \<le> length r"
    by (rule parser_match_le)
  ultimately show ?thesis using Pair le
    by (cases x) (auto simp: parse_stmt_inc_def split: prod.splits)
qed

lemma parse_stmt_dec_le: "length (snd (parse_stmt_dec ts)) \<le> length ts"
proof (cases "parser_expect ts TOK_IDENT")
  case (Pair x r)
  with parser_expect_le [of ts TOK_IDENT] have le: "length r \<le> length ts" by simp
  have "length (snd (parser_match (snd (parse_expr r)) TOK_NEWLINE)) \<le> length r"
    using consumes_expr [of r] parser_match_le [of "snd (parse_expr r)" TOK_NEWLINE]
    by (simp add: consumes_def)
  moreover have "length (snd (parser_match r TOK_NEWLINE)) \<le> length r"
    by (rule parser_match_le)
  ultimately show ?thesis using Pair le
    by (cases x) (auto simp: parse_stmt_dec_def split: prod.splits)
qed

lemma parse_inline_stmt_consumes: "consumes ts (parse_inline_stmt ts)"
proof -
  have e: "consumes ts (case parse_expr ts of (None, r) \<Rightarrow> (None, r)
                        | (Some v, r) \<Rightarrow> (Some (f v), r))" for ts and f :: "expr \<Rightarrow> stmt"
    using consumes_expr [of ts] by (auto simp: consumes_def split: prod.splits option.splits)
  have e': "length (snd (case parse_expr ts of (None, r) \<Rightarrow> (None, r)
                        | (Some v, r) \<Rightarrow> (Some (f v), r))) \<le> length ts"
    for ts and f :: "expr \<Rightarrow> stmt"
    using e [where ts = ts and f = f] by (simp add: consumes_def)
  have adv: "parser_check ts ty \<Longrightarrow> ty \<noteq> TOK_EOF \<Longrightarrow> length (parser_advance ts) < length ts"
    for ty by (rule parser_check_advance_lt)
  show ?thesis
  proof (cases "parser_check ts TOK_RET")
    case True
    with adv [of TOK_RET] ret_variant_le [of "parser_advance ts"]
      e' [where ts = "snd (ret_variant (parser_advance ts))"
          and f = "NODE_RETURN (fst (ret_variant (parser_advance ts)))"]
    show ?thesis by (simp add: parse_inline_stmt_def consumes_def)
  next
    case nr: False
    show ?thesis
    proof (cases "parser_check ts TOK_OUT")
      case True
      with nr adv [of TOK_OUT] e' [where ts = "parser_advance ts" and f = NODE_OUT]
      show ?thesis by (simp add: parse_inline_stmt_def consumes_def)
    next
      case no: False
      show ?thesis
      proof (cases "parser_check ts TOK_LET")
        case True
        obtain x r where pe: "parser_expect (parser_advance ts) TOK_IDENT = (x, r)"
          by (cases "parser_expect (parser_advance ts) TOK_IDENT")
        with parser_expect_le [of "parser_advance ts" TOK_IDENT] adv [of TOK_LET] True
        have lt: "length r < length ts" by simp
        show ?thesis
        proof (cases x)
          case None
          with True nr no pe lt show ?thesis by (simp add: parse_inline_stmt_def consumes_def)
        next
          case (Some name_tok)
          with True nr no pe lt e' [where ts = r and f = "NODE_LET (tvalue name_tok)"]
          show ?thesis by (simp add: parse_inline_stmt_def consumes_def)
        qed
      next
        case False
        with nr no e [where ts = ts and f = NODE_EXPR_STMT] show ?thesis
          by (simp add: parse_inline_stmt_def)
      qed
    qed
  qed
qed

lemma parse_repeat_head_le: "length (snd (parse_repeat_head ts)) \<le> length ts"
proof -
  obtain x r where pp: "parse_primary ts = (x, r)" by (cases "parse_primary ts")
  with parse_primary_le [of ts] have r: "length r \<le> length ts" by simp
  obtain y r1 where pe: "parser_expect r TOK_TIMES = (y, r1)"
    by (cases "parser_expect r TOK_TIMES")
  with parser_expect_le [of r TOK_TIMES] r have r1: "length r1 \<le> length ts" by simp
  obtain z r2 where pv: "parser_expect (parser_advance r1) TOK_IDENT = (z, r2)"
    by (cases "parser_expect (parser_advance r1) TOK_IDENT")
  with parser_expect_le [of "parser_advance r1" TOK_IDENT] parser_advance_le [of r1] r1
  have r2: "length r2 \<le> length ts" by simp
  from r1 r2 skipnl_le [of r1 TOK_NEWLINE] skipnl_le [of r2 TOK_NEWLINE] r pp pe pv
  show ?thesis
    by (cases x; cases y; cases z) (auto simp: parse_repeat_head_def)
qed


lemma consumes_after_keyword:
  "\<not> parser_at_end ts \<Longrightarrow> length (snd (f (parser_advance ts))) \<le> length (parser_advance ts)
   \<Longrightarrow> consumes ts (f (parser_advance ts))"
  using parser_advance_lt [of ts] by (simp add: consumes_def)

lemma parse_stmt_dom_len:
  "parse_stmt_parse_block_dom (Inl ts) \<Longrightarrow> consumes ts (parse_stmt ts)"
  "parse_stmt_parse_block_dom (Inr (se, ts2, acc)) \<Longrightarrow>
     length (snd (parse_block se ts2 acc)) \<le> length ts2"
proof (induct rule: parse_stmt_parse_block.pinduct)
  case (1 ts)
  note dom = "1.hyps"(1)
  note eq = parse_stmt.psimps [OF dom]
  have kw: "consumes ts (f (parser_advance ts))"
    if "parser_check ts ty" "ty \<noteq> TOK_EOF"
      "length (snd (f (parser_advance ts))) \<le> length (parser_advance ts)"
    for ty and f :: "Token list \<Rightarrow> stmt option \<times> Token list"
    using that by (intro consumes_after_keyword check_not_at_end)
  show ?case
  proof (cases "parser_check ts TOK_RET")
    case True
    with kw [of TOK_RET parse_stmt_ret] show ?thesis by (simp add: eq parse_stmt_ret_le)
  next
    case c1: False
    show ?thesis
    proof (cases "parser_check ts TOK_OUT")
      case True
      with c1 kw [of TOK_OUT parse_stmt_out] show ?thesis by (simp add: eq parse_stmt_out_le)
    next
      case c2: False
      show ?thesis
      proof (cases "parser_check ts TOK_INC")
        case True
        with c1 c2 kw [of TOK_INC parse_stmt_inc] show ?thesis
          by (simp add: eq parse_stmt_inc_le)
      next
        case c3: False
        show ?thesis
        proof (cases "parser_check ts TOK_DEC")
          case True
          with c1 c2 c3 kw [of TOK_DEC parse_stmt_dec] show ?thesis
            by (simp add: eq parse_stmt_dec_le)
        next
          case c4: False
          show ?thesis
          proof (cases "parser_check ts TOK_IF")
            case c5: True
            then have lt: "length (parser_advance ts) < length ts"
              by (simp add: parser_check_advance_lt)
            obtain x r where pc: "(x, r) = parse_comparison (parser_advance ts)"
              by (metis surj_pair)
            with consumes_comparison [of "parser_advance ts"] lt
            have r: "length r < length ts" by (auto simp: consumes_def dest: sym)
            note pc' = pc [symmetric]
            show ?thesis
            proof (cases x)
              case None
              with c1 c2 c3 c4 c5 pc' r show ?thesis by (simp add: eq consumes_def)
            next
              case cond: (Some condition)
              show ?thesis
              proof (cases "parser_check r TOK_NEWLINE")
                case nl: True
                define r0 where "r0 = parser_skip_newlines (snd (parser_match r TOK_NEWLINE))"
                have r0: "length r0 < length ts"
                  using skipnl_le [of r TOK_NEWLINE] r by (simp add: r0_def)
                obtain xa r1 where pb: "(xa, r1) = parse_block True r0 []"
                  by (metis surj_pair)
                note pb' = pb [symmetric]
                from "1.hyps"(2) [OF c1 c2 c3 c4 c5 pc cond nl] pb' r0
                have r1: "length r1 < length ts" by (simp add: r0_def)
                show ?thesis
                proof (cases xa)
                  case None
                  with c1 c2 c3 c4 c5 pc' cond nl pb' r1 show ?thesis
                    by (simp add: eq consumes_def r0_def)
                next
                  case tb: (Some then_block)
                  show ?thesis
                  proof (cases "parser_check r1 TOK_ELSE")
                    case els: True
                    define r2 where
                      "r2 = parser_skip_newlines (snd (parser_match (parser_advance r1) TOK_NEWLINE))"
                    have r2: "length r2 < length ts"
                      using skipnl_le [of "parser_advance r1" TOK_NEWLINE]
                        parser_advance_le [of r1] r1 by (simp add: r2_def)
                    show ?thesis
                    proof (cases "parser_check r2 TOK_IF")
                      case True
                      from "1.hyps"(3) [OF c1 c2 c3 c4 c5 pc cond nl pb [unfolded r0_def] tb els
                          True [unfolded r2_def]]
                      have "length (snd (parse_stmt r2)) \<le> length r2"
                        by (simp add: r2_def consumes_def)
                      with if_block_end_le [of "snd (parse_stmt r2)"] r2
                      have "length (if_block_end (snd (parse_stmt r2))) < length ts" by simp
                      with c1 c2 c3 c4 c5 pc' cond nl pb' tb els True show ?thesis
                        by (simp add: eq consumes_def r0_def [symmetric] r2_def [symmetric]
                              case_prod_beta)
                    next
                      case False
                      obtain xb r3 where pe: "(xb, r3) = parse_block False r2 []"
                        by (metis surj_pair)
                      note pe' = pe [symmetric]
                      from "1.hyps"(4) [OF c1 c2 c3 c4 c5 pc cond nl pb [unfolded r0_def] tb els
                          False [unfolded r2_def]] pe' r2
                      have r3: "length r3 < length ts" by (simp add: r2_def)
                      with if_block_end_le [of r3]
                      have "length (if_block_end r3) < length ts" by simp
                      with c1 c2 c3 c4 c5 pc' cond nl pb' tb els False pe' r3 show ?thesis
                        by (cases xb)
                           (simp_all add: eq consumes_def r0_def [symmetric] r2_def [symmetric])
                    qed
                  next
                    case False
                    from if_block_end_le [of r1] r1
                    have "length (if_block_end r1) < length ts" by simp
                    with c1 c2 c3 c4 c5 pc' cond nl pb' tb False show ?thesis
                      by (simp add: eq consumes_def r0_def [symmetric])
                  qed
                qed
              next
                case nl: False
                obtain xa r1 where pi: "(xa, r1) = parse_inline_stmt r"
                  by (metis surj_pair)
                note pi' = pi [symmetric]
                from parse_inline_stmt_consumes [of r] pi' r
                have r1: "length r1 < length ts" by (simp add: consumes_def)
                show ?thesis
                proof (cases xa)
                  case None
                  with c1 c2 c3 c4 c5 pc' cond nl pi' r1 show ?thesis
                    by (simp add: eq consumes_def)
                next
                  case ths: (Some then_stmt)
                  show ?thesis
                  proof (cases "parser_check r1 TOK_ELSE")
                    case els: True
                    have a: "length (parser_advance r1) < length ts"
                      using parser_advance_le [of r1] r1 by simp
                    show ?thesis
                    proof (cases "parser_check (parser_advance r1) TOK_IF")
                      case True
                      from "1.hyps"(5) [OF c1 c2 c3 c4 c5 pc cond nl pi ths els True] a
                      have "length (snd (parse_stmt (parser_advance r1))) < length ts"
                        by (simp add: consumes_def)
                      with c1 c2 c3 c4 c5 pc' cond nl pi' ths els True show ?thesis
                        by (simp add: eq consumes_def case_prod_beta)
                    next
                      case False
                      from parse_inline_stmt_consumes [of "parser_advance r1"] a
                        parser_match_le [of "snd (parse_inline_stmt (parser_advance r1))" TOK_NEWLINE]
                      have "length (snd (parser_match (snd (parse_inline_stmt (parser_advance r1)))
                                TOK_NEWLINE)) < length ts"
                        by (simp add: consumes_def)
                      with c1 c2 c3 c4 c5 pc' cond nl pi' ths els False show ?thesis
                        by (simp add: eq consumes_def case_prod_beta)
                    qed
                  next
                    case False
                    from parser_match_le [of r1 TOK_NEWLINE] r1
                    have "length (snd (parser_match r1 TOK_NEWLINE)) < length ts" by simp
                    with c1 c2 c3 c4 c5 pc' cond nl pi' ths False show ?thesis
                      by (simp add: eq consumes_def)
                  qed
                qed
              qed
            qed
          next
            case c5: False
            show ?thesis
            proof (cases "parser_check ts TOK_LET")
              case True
              with c1 c2 c3 c4 c5 kw [of TOK_LET parse_stmt_let] show ?thesis
                by (simp add: eq parse_stmt_let_le)
            next
              case c6: False
              show ?thesis
              proof (cases "parser_check ts TOK_REPEAT")
                case c7: True
                then have lt: "length (parser_advance ts) < length ts"
                  by (simp add: parser_check_advance_lt)
                obtain x r where ph: "(x, r) = parse_repeat_head (parser_advance ts)"
                  by (metis surj_pair)
                note ph' = ph [symmetric]
                with parse_repeat_head_le [of "parser_advance ts"] lt
                have r: "length r < length ts" by simp
                show ?thesis
                proof (cases x)
                  case None
                  with c1 c2 c3 c4 c5 c6 c7 ph' r show ?thesis by (simp add: eq consumes_def)
                next
                  case hd: (Some h)
                  obtain cnt var_name where h: "(cnt, var_name) = h" by (metis surj_pair)
                  obtain xa r1 where pb: "(xa, r1) = parse_block False r []"
                    by (metis surj_pair)
                  note pb' = pb [symmetric]
                  from "1.hyps"(6) [OF c1 c2 c3 c4 c5 c6 c7 ph hd h] pb' r
                  have r1: "length r1 < length ts" by simp
                  obtain y r2 where pd: "parser_expect r1 TOK_DONE = (y, r2)"
                    by (cases "parser_expect r1 TOK_DONE")
                  with parser_expect_le [of r1 TOK_DONE] r1
                  have r2: "length r2 < length ts" by simp
                  with parser_match_le [of r2 TOK_NEWLINE]
                  have "length (snd (parser_match r2 TOK_NEWLINE)) < length ts" by simp
                  with c1 c2 c3 c4 c5 c6 c7 ph' hd h [symmetric] pb' r1 pd r2 show ?thesis
                    by (cases xa; cases y) (simp_all add: eq consumes_def)
                qed
              next
                case c7: False
                show ?thesis
                proof (cases "parser_check ts TOK_WHILE")
                  case c8: True
                  then have lt: "length (parser_advance ts) < length ts"
                    by (simp add: parser_check_advance_lt)
                  obtain x r where pc: "(x, r) = parse_comparison (parser_advance ts)"
                    by (metis surj_pair)
                  with consumes_comparison [of "parser_advance ts"] lt
                  have r: "length r < length ts" by (auto simp: consumes_def dest: sym)
                  note pc' = pc [symmetric]
                  show ?thesis
                  proof (cases x)
                    case None
                    with c1 c2 c3 c4 c5 c6 c7 c8 pc' r show ?thesis
                      by (simp add: eq consumes_def)
                  next
                    case cond: (Some condition)
                    define r0 where "r0 = parser_skip_newlines (snd (parser_match r TOK_NEWLINE))"
                    have r0: "length r0 < length ts"
                      using skipnl_le [of r TOK_NEWLINE] r by (simp add: r0_def)
                    obtain xa r1 where pb: "(xa, r1) = parse_block False r0 []"
                      by (metis surj_pair)
                    note pb' = pb [symmetric]
                    from "1.hyps"(7) [OF c1 c2 c3 c4 c5 c6 c7 c8 pc cond] pb' r0
                    have r1: "length r1 < length ts" by (simp add: r0_def)
                    obtain y r2 where pd: "parser_expect r1 TOK_DONE = (y, r2)"
                      by (cases "parser_expect r1 TOK_DONE")
                    with parser_expect_le [of r1 TOK_DONE] r1
                    have r2: "length r2 < length ts" by simp
                    with parser_match_le [of r2 TOK_NEWLINE]
                    have "length (snd (parser_match r2 TOK_NEWLINE)) < length ts" by simp
                    with c1 c2 c3 c4 c5 c6 c7 c8 pc' cond pb' r1 pd r2 show ?thesis
                      by (cases xa; cases y) (simp_all add: eq consumes_def r0_def [symmetric])
                  qed
                next
                  case False
                  with c1 c2 c3 c4 c5 c6 c7 show ?thesis
                    by (simp add: eq parse_stmt_expr_consumes)
                qed
              qed
            qed
          qed
        qed
      qed
    qed
  qed
next
  case (2 stop_else ts acc)
  note eq = parse_block.psimps [OF "2.hyps"(1)]
  show ?case
  proof (cases "\<not> parser_at_end ts \<and> \<not> (stop_else \<and> parser_check ts TOK_ELSE)
                 \<and> \<not> parser_check ts TOK_DONE")
    case go: True
    show ?thesis
    proof (cases "parser_check ts TOK_NEWLINE")
      case True
      from "2.hyps"(2) [OF go True] parser_advance_le [of ts]
      have "length (snd (parse_block stop_else (parser_advance ts) acc)) \<le> length ts" by simp
      with go True show ?thesis by (simp add: eq)
    next
      case False
      obtain x r where ps: "(x, r) = parse_stmt ts" by (metis surj_pair)
      note ps' = ps [symmetric]
      from "2.hyps"(3) [OF go False] ps' have r: "length r \<le> length ts"
        by (simp add: consumes_def)
      show ?thesis
      proof (cases x)
        case None
        with go False ps' r show ?thesis by (simp add: eq)
      next
        case (Some s)
        from "2.hyps"(4) [OF go False ps Some] parser_skip_newlines_le [of r] r
        have "length (snd (parse_block stop_else (parser_skip_newlines r) (acc @ [s])))
              \<le> length ts" by simp
        with go False ps' Some show ?thesis by (simp add: eq)
      qed
    qed
  next
    case False
    then show ?thesis by (auto simp: eq)
  qed
qed



lemma cmp_after_kw:
  "parser_check ts ty \<Longrightarrow> ty \<noteq> TOK_EOF \<Longrightarrow> (x, y) = parse_comparison (parser_advance ts)
   \<Longrightarrow> length y < length ts"
  using consumes_comparison [of "parser_advance ts"] parser_check_advance_lt [of ts ty]
  by (auto simp: consumes_def dest: sym)

lemma head_after_kw:
  "parser_check ts ty \<Longrightarrow> ty \<noteq> TOK_EOF \<Longrightarrow> (x, y) = parse_repeat_head (parser_advance ts)
   \<Longrightarrow> length y < length ts"
  using parse_repeat_head_le [of "parser_advance ts"] parser_check_advance_lt [of ts ty]
  by (auto dest: sym)

lemma inline_le: "(x, y) = parse_inline_stmt r \<Longrightarrow> length y \<le> length r"
  using parse_inline_stmt_consumes [of r] by (auto simp: consumes_def dest: sym)

lemma block_dom_le:
  "parse_stmt_parse_block_dom (Inr (se, r0, acc)) \<Longrightarrow> (xa, ya) = parse_block se r0 acc \<Longrightarrow>
   length ya \<le> length r0"
  using parse_stmt_dom_len(2) [of se r0 acc] by (auto dest: sym)

lemma stmt_dom_lt:
  "parse_stmt_parse_block_dom (Inl ts) \<Longrightarrow> (Some s, r) = parse_stmt ts \<Longrightarrow>
   length r < length ts"
  using parse_stmt_dom_len(1) [of ts] by (auto simp: consumes_def dest: sym)

lemma parse_stmt_all_dom: "All parse_stmt_parse_block_dom"
proof (rule "parse_stmt_parse_block.termination"
    [where R = "measures [\<lambda>x. case x of Inl ts \<Rightarrow> length ts | Inr (se, ts, acc) \<Rightarrow> length ts,
                            \<lambda>x. case x of Inl ts \<Rightarrow> 0 | Inr (se, ts, acc) \<Rightarrow> 1]"],
    goal_cases)
  case 1
  show ?case by simp
next
  case (2 ts x y x2)
  then have "length y < length ts" by (auto intro: cmp_after_kw)
  with skipnl_le [of y TOK_NEWLINE] show ?case by simp
next
  case (3 ts x y x2 xa ya x2a)
  then have "length y < length ts" by (auto intro: cmp_after_kw)
  moreover from 3
  have "length ya \<le> length (parser_skip_newlines (snd (parser_match y TOK_NEWLINE)))"
    by (auto intro: block_dom_le)
  ultimately show ?case
    using skipnl_le [of y TOK_NEWLINE] skipnl_le [of "parser_advance ya" TOK_NEWLINE]
      parser_advance_le [of ya] by simp
next
  case (4 ts x y x2 xa ya x2a)
  then have "length y < length ts" by (auto intro: cmp_after_kw)
  moreover from 4
  have "length ya \<le> length (parser_skip_newlines (snd (parser_match y TOK_NEWLINE)))"
    by (auto intro: block_dom_le)
  ultimately show ?case
    using skipnl_le [of y TOK_NEWLINE] skipnl_le [of "parser_advance ya" TOK_NEWLINE]
      parser_advance_le [of ya] by simp
next
  case (5 ts x y x2 xa ya x2a)
  then have "length y < length ts" by (auto intro: cmp_after_kw)
  moreover from 5 have "length ya \<le> length y" by (auto intro: inline_le)
  ultimately show ?case using parser_advance_le [of ya] by simp
next
  case (6 ts x y x2 xa ya)
  then have "length y < length ts" by (auto intro: head_after_kw)
  then show ?case by simp
next
  case (7 ts x y x2)
  then have "length y < length ts" by (auto intro: cmp_after_kw)
  with skipnl_le [of y TOK_NEWLINE] show ?case by simp
next
  case (8 stop_else ts acc)
  then show ?case by (simp add: parser_advance_lt)
next
  case (9 stop_else ts acc)
  then show ?case by simp
next
  case (10 stop_else ts acc x y x2)
  then have "length y < length ts" by (auto intro: stmt_dom_lt)
  with parser_skip_newlines_le [of y] show ?case by simp
qed

termination parse_stmt
  by (rule parse_stmt_all_dom)

declare parse_stmt.simps [simp del] parse_block.simps [simp del]

lemma consumes_stmt: "consumes ts (parse_stmt ts)"
  using parse_stmt_all_dom by (auto intro: parse_stmt_dom_len(1))

lemma parse_block_le: "length (snd (parse_block se ts acc)) \<le> length ts"
  using parse_stmt_all_dom by (auto intro: parse_stmt_dom_len(2))

text \<open>The parameter loop and the body loop of \<^verbatim>\<open>parse_func_def\<close>.\<close>

function parse_params :: "Token list \<Rightarrow> string list \<Rightarrow> string list \<times> Token list" where
  "parse_params ts acc =
     (if \<not> parser_at_end_of_line ts \<and> parser_check ts TOK_IDENT
      then parse_params (parser_advance ts) (acc @ [tvalue (parser_current ts)])
      else (acc, ts))"
  by pat_completeness auto
termination
  by (relation "measure (\<lambda>(ts, acc). length ts)") (auto simp: parser_check_advance_lt)

declare parse_params.simps [simp del]

lemma parse_params_le: "length (snd (parse_params ts acc)) \<le> length ts"
proof (induction ts acc rule: parse_params.induct)
  case (1 ts acc)
  show ?case
  proof (cases "\<not> parser_at_end_of_line ts \<and> parser_check ts TOK_IDENT")
    case True
    with 1 parser_advance_le [of ts] show ?thesis
      by (subst parse_params.simps) (auto intro: order_trans)
  next
    case False
    then show ?thesis by (subst parse_params.simps) auto
  qed
qed

function parse_body :: "Token list \<Rightarrow> stmt list \<Rightarrow> stmt list option \<times> Token list" where
  "parse_body ts acc =
     (if \<not> parser_at_end ts \<and> \<not> parser_check ts TOK_FN \<and> \<not> parser_check ts TOK_TYPE then
        (if parser_check ts TOK_NEWLINE then parse_body (parser_advance ts) acc
         else
           (case parse_stmt ts of
              (None, r) \<Rightarrow> (None, r)
            | (Some stmt, r) \<Rightarrow> parse_body (parser_skip_newlines r) (acc @ [stmt])))
      else (Some acc, ts))"
  by pat_completeness auto
termination
proof (relation "measure (\<lambda>(ts, acc). length ts)", goal_cases)
  case 1
  show ?case by simp
next
  case (2 ts acc)
  then show ?case by (simp add: parser_advance_lt)
next
  case (3 ts acc x y x2)
  with consumes_stmt [of ts] have "length y < length ts"
    by (auto simp: consumes_def dest: sym)
  with parser_skip_newlines_le [of y] show ?case by simp
qed

declare parse_body.simps [simp del]

lemma parse_body_le: "length (snd (parse_body ts acc)) \<le> length ts"
proof (induction ts acc rule: parse_body.induct)
  case (1 ts acc)
  show ?case
  proof (cases "\<not> parser_at_end ts \<and> \<not> parser_check ts TOK_FN \<and> \<not> parser_check ts TOK_TYPE")
    case go: True
    show ?thesis
    proof (cases "parser_check ts TOK_NEWLINE")
      case True
      from "1.IH"(1) [OF go True] parser_advance_le [of ts]
      have "length (snd (parse_body (parser_advance ts) acc)) \<le> length ts" by simp
      with go True show ?thesis by (subst parse_body.simps) simp
    next
      case False
      obtain x r where ps: "(x, r) = parse_stmt ts" by (metis surj_pair)
      note ps' = ps [symmetric]
      from consumes_stmt [of ts] ps' have r: "length r \<le> length ts"
        by (simp add: consumes_def)
      show ?thesis
      proof (cases x)
        case None
        with go False ps' r show ?thesis by (subst parse_body.simps) simp
      next
        case (Some s)
        from "1.IH"(2) [OF go False ps Some] parser_skip_newlines_le [of r] r
        have "length (snd (parse_body (parser_skip_newlines r) (acc @ [s]))) \<le> length ts"
          by simp
        with go False ps' Some show ?thesis by (subst parse_body.simps) simp
      qed
    qed
  next
    case False
    then show ?thesis by (subst parse_body.simps) auto
  qed
qed

text \<open>\<^verbatim>\<open>parse_func_def\<close> is entered at a \<^verbatim>\<open>fn\<close> token; the result of its first
  \<^verbatim>\<open>parser_expect\<close> is not looked at.\<close>

definition parse_func_def :: "Token list \<Rightarrow> func_def option \<times> Token list" where
  "parse_func_def ts =
     (case parser_expect (snd (parser_expect ts TOK_FN)) TOK_IDENT of
        (None, r) \<Rightarrow> (None, r)
      | (Some name_tok, r) \<Rightarrow>
          (case parse_params r [] of
             (ps, r1) \<Rightarrow>
               (case parse_body (parser_skip_newlines (snd (parser_match r1 TOK_NEWLINE))) [] of
                  (None, r2) \<Rightarrow> (None, r2)
                | (Some stmts, r2) \<Rightarrow>
                    (Some \<lparr>fname = tvalue name_tok, fparams = ps, fbody = stmts\<rparr>, r2))))"

text \<open>The field loop of a struct type definition: type names and identifiers are skipped
  up to the end of the line.\<close>

function skip_fields :: "Token list \<Rightarrow> Token list" where
  "skip_fields ts =
     (if \<not> parser_at_end_of_line ts \<and> (is_type_token ts \<or> parser_check ts TOK_IDENT)
      then skip_fields (parser_advance ts) else ts)"
  by pat_completeness auto
termination
  by (relation "measure length")
     (auto simp: parser_at_end_of_line_def parser_at_end_def parser_check_def
           intro!: parser_advance_lt)

declare skip_fields.simps [simp del]

lemma skip_fields_le: "length (skip_fields ts) \<le> length ts"
proof (induction ts rule: skip_fields.induct)
  case (1 ts)
  show ?case
  proof (cases "\<not> parser_at_end_of_line ts \<and> (is_type_token ts \<or> parser_check ts TOK_IDENT)")
    case True
    with 1 parser_advance_le [of ts] show ?thesis
      by (subst skip_fields.simps) (auto intro: order_trans)
  next
    case False
    then show ?thesis by (subst skip_fields.simps) auto
  qed
qed

definition skip_type_token :: "Token list \<Rightarrow> Token list" where
  "skip_type_token ts = (if is_type_token ts then parser_advance ts else ts)"

definition parse_type_def :: "Token list \<Rightarrow> type_def option \<times> Token list" where
  "parse_type_def ts =
     (case parser_expect (snd (parser_expect ts TOK_TYPE)) TOK_IDENT of
        (None, r) \<Rightarrow> (None, r)
      | (Some name_tok, r) \<Rightarrow>
          if parser_check r TOK_OK then
            (Some \<lparr>tname = tvalue name_tok, is_union = True\<rparr>,
             snd (parser_match
                   (skip_type_token
                     (snd (parser_expect
                            (snd (parser_expect (skip_type_token (parser_advance r)) TOK_OR))
                            TOK_ERR)))
                   TOK_NEWLINE))
          else
            (Some \<lparr>tname = tvalue name_tok, is_union = False\<rparr>,
             snd (parser_match (skip_fields r) TOK_NEWLINE)))"

lemma skip_type_token_le: "length (skip_type_token ts) \<le> length ts"
  by (simp add: skip_type_token_def parser_advance_le)

lemma expect_kw_lt:
  "parser_check ts ty \<Longrightarrow> ty \<noteq> TOK_EOF \<Longrightarrow> length (snd (parser_expect ts ty)) < length ts"
  by (simp add: parser_expect_def parser_check_advance_lt)

lemma parse_func_def_lt:
  assumes "parser_check ts TOK_FN"
  shows "length (snd (parse_func_def ts)) < length ts"
proof -
  define r0 where "r0 = snd (parser_expect ts TOK_FN)"
  from assms have r0: "length r0 < length ts" by (simp add: r0_def expect_kw_lt)
  obtain x r where pe: "parser_expect r0 TOK_IDENT = (x, r)" by (cases "parser_expect r0 TOK_IDENT")
  with parser_expect_le [of r0 TOK_IDENT] r0 have r: "length r < length ts" by simp
  obtain ps r1 where pp: "parse_params r [] = (ps, r1)" by (cases "parse_params r []")
  with parse_params_le [of r "[]"] r have r1: "length r1 < length ts" by simp
  define r1' where "r1' = parser_skip_newlines (snd (parser_match r1 TOK_NEWLINE))"
  from skipnl_le [of r1 TOK_NEWLINE] r1 have r1': "length r1' < length ts" by (simp add: r1'_def)
  obtain y r2 where pb: "parse_body r1' [] = (y, r2)" by (cases "parse_body r1' []")
  with parse_body_le [of r1' "[]"] r1' have r2: "length r2 < length ts" by simp
  from r r2 pe pp pb show ?thesis
    by (cases x; cases y)
       (simp_all add: parse_func_def_def r0_def [symmetric] r1'_def [symmetric])
qed

lemma parse_type_def_lt:
  assumes "parser_check ts TOK_TYPE"
  shows "length (snd (parse_type_def ts)) < length ts"
proof -
  define r0 where "r0 = snd (parser_expect ts TOK_TYPE)"
  from assms have r0: "length r0 < length ts" by (simp add: r0_def expect_kw_lt)
  obtain x r where pe: "parser_expect r0 TOK_IDENT = (x, r)" by (cases "parser_expect r0 TOK_IDENT")
  with parser_expect_le [of r0 TOK_IDENT] r0 have r: "length r < length ts" by simp
  have a: "length (snd (parser_match (skip_fields r) TOK_NEWLINE)) < length ts"
    using parser_match_le [of "skip_fields r" TOK_NEWLINE] skip_fields_le [of r] r by simp
  define u1 where "u1 = skip_type_token (parser_advance r)"
  define u2 where "u2 = snd (parser_expect u1 TOK_OR)"
  define u3 where "u3 = snd (parser_expect u2 TOK_ERR)"
  have "length u1 \<le> length r"
    using skip_type_token_le [of "parser_advance r"] parser_advance_le [of r] by (simp add: u1_def)
  then have "length u2 \<le> length r" using parser_expect_le [of u1 TOK_OR] by (simp add: u2_def)
  then have "length u3 \<le> length r" using parser_expect_le [of u2 TOK_ERR] by (simp add: u3_def)
  then have b: "length (snd (parser_match (skip_type_token u3) TOK_NEWLINE)) < length ts"
    using parser_match_le [of "skip_type_token u3" TOK_NEWLINE] skip_type_token_le [of u3] r
    by simp
  from r a b pe show ?thesis
    by (cases x)
       (simp_all add: parse_type_def_def r0_def [symmetric] u1_def [symmetric] u2_def [symmetric]
          u3_def [symmetric])
qed

text \<open>The top-level loop of \<^verbatim>\<open>parser_parse\<close>.\<close>

function parse_program_loop :: "Token list \<Rightarrow> program \<Rightarrow> program option \<times> Token list" where
  "parse_program_loop ts prog =
     (if \<not> parser_at_end ts then
        (if parser_check ts TOK_TYPE then
           (case parse_type_def ts of
              (None, r) \<Rightarrow> (None, r)
            | (Some td, r) \<Rightarrow>
                parse_program_loop (parser_skip_newlines r)
                  (prog\<lparr>prog_types := prog_types prog @ [td]\<rparr>))
         else if parser_check ts TOK_FN then
           (case parse_func_def ts of
              (None, r) \<Rightarrow> (None, r)
            | (Some fd, r) \<Rightarrow>
                parse_program_loop (parser_skip_newlines r)
                  (prog\<lparr>prog_functions := prog_functions prog @ [fd]\<rparr>))
         else if parser_check ts TOK_NEWLINE then parse_program_loop (parser_advance ts) prog
         else (None, ts))
      else (Some prog, ts))"
  by pat_completeness auto
termination
proof (relation "measure (\<lambda>(ts, prog). length ts)", goal_cases)
  case 1
  show ?case by simp
next
  case (2 ts prog x y x2)
  with parse_type_def_lt [of ts] have "length y < length ts" by (auto dest: sym)
  with parser_skip_newlines_le [of y] show ?case by simp
next
  case (3 ts prog x y x2)
  with parse_func_def_lt [of ts] have "length y < length ts" by (auto dest: sym)
  with parser_skip_newlines_le [of y] show ?case by simp
next
  case (4 ts prog)
  then show ?case by (simp add: parser_advance_lt)
qed

declare parse_program_loop.simps [simp del]

definition parser_parse :: "Token list \<Rightarrow> program option" where
  "parser_parse ts =
     fst (parse_program_loop (parser_skip_newlines ts) \<lparr>prog_types = [], prog_functions = []\<rparr>)"

section \<open>Emitted code\<close>

text \<open>The code generator writes LLVM IR as text, one \<^verbatim>\<open>fprintf\<close> per line. The model keeps
  each line as a value of the type \<open>ir\<close>, one constructor per format string; \<open>render\<close> below
  gives the text of a line.\<close>

datatype operand =
    Tmp int       \<comment> \<open>\<^verbatim>\<open>%t<n>\<close>\<close>
  | Param int     \<comment> \<open>\<^verbatim>\<open>%arg<n>\<close>\<close>
  | Zero          \<comment> \<open>\<^verbatim>\<open>0.0\<close>\<close>
  | One           \<comment> \<open>\<^verbatim>\<open>1.0\<close>\<close>
  | LitF rat      \<comment> \<open>a \<^verbatim>\<open>double\<close> printed with \<^verbatim>\<open>%.1f\<close>\<close>
  | LitE rat      \<comment> \<open>a \<^verbatim>\<open>double\<close> printed with \<^verbatim>\<open>%e\<close>\<close>

datatype label = Label string int   \<comment> \<open>\<^verbatim>\<open>then<n>\<close>, \<^verbatim>\<open>loop_start<n>\<close>, ...\<close>

datatype ir =
    IBin string int operand operand    \<comment> \<open>\<^verbatim>\<open>  %t<r> = <op> double <a>, <b>\<close>\<close>
  | IFcmp string int operand operand   \<comment> \<open>\<^verbatim>\<open>  %t<r> = fcmp <pred> double <a>, <b>\<close>\<close>
  | IUitofp int int                    \<comment> \<open>\<^verbatim>\<open>  %t<r> = uitofp i1 %t<c> to double\<close>\<close>
  | ILogic string int int int          \<comment> \<open>\<^verbatim>\<open>  %t<r> = <and|or> i1 %t<a>, %t<b>\<close>\<close>
  | ILoad int int                      \<comment> \<open>\<^verbatim>\<open>  %t<r> = load double, double* %local<l>\<close>\<close>
  | IStore operand int                 \<comment> \<open>\<^verbatim>\<open>  store double <v>, double* %local<l>\<close>\<close>
  | IAlloca int                        \<comment> \<open>\<^verbatim>\<open>  %local<l> = alloca double\<close>\<close>
  | ICall int string "int list"        \<comment> \<open>\<^verbatim>\<open>  %t<r> = call double @<f>(double %t<a>, ...)\<close>\<close>
  | IComment string                    \<comment> \<open>\<^verbatim>\<open>  ; <text>\<close>\<close>
  | IRet operand                       \<comment> \<open>\<^verbatim>\<open>  ret double <v>\<close>\<close>
  | IBr label                          \<comment> \<open>\<^verbatim>\<open>  br label %<l>\<close>\<close>
  | ICondBr int label label            \<comment> \<open>\<^verbatim>\<open>  br i1 %t<c>, label %<l1>, label %<l2>\<close>\<close>
  | ILabel label                       \<comment> \<open>\<^verbatim>\<open><l>:\<close>\<close>
  | IStrPtr int nat int                \<comment> \<open>\<^verbatim>\<open>  %t<r> = getelementptr [<n> x i8], [<n> x i8]* @.str<id>, i32 0, i32 0\<close>\<close>
  | IPrintStr int                      \<comment> \<open>the \<^verbatim>\<open>printf\<close> call with \<^verbatim>\<open>@.fmt_str\<close> and \<^verbatim>\<open>i8* %t<p>\<close>\<close>
  | IPrintNum int                      \<comment> \<open>the \<^verbatim>\<open>printf\<close> call with \<^verbatim>\<open>@.fmt_num\<close> and \<^verbatim>\<open>double %t<v>\<close>\<close>
  | IDefine string nat                 \<comment> \<open>\<^verbatim>\<open>define double @<name>(double %arg0, ...) {\<close>\<close>
  | IEntry                             \<comment> \<open>\<^verbatim>\<open>entry:\<close>\<close>
  | IClose                             \<comment> \<open>\<^verbatim>\<open>}\<close> and an empty line\<close>
  | IText string                       \<comment> \<open>a fixed line of the module header\<close>
  | IStrConst nat nat string           \<comment> \<open>\<^verbatim>\<open>@.str<i> = private constant [<n> x i8] c"<bytes>\00"\<close>\<close>

text \<open>Decimal text of an integer, as \<^verbatim>\<open>%d\<close> and \<^verbatim>\<open>%zu\<close> print it.\<close>

fun show_nat :: "nat \<Rightarrow> string" where
  "show_nat n = (if n < 10 then [char_of (48 + n)] else show_nat (n div 10) @ [char_of (48 + n mod 10)])"

declare show_nat.simps [simp del]

definition show_int :: "int \<Rightarrow> string" where
  "show_int i = (if i < 0 then CHR ''-'' # show_nat (nat (- i)) else show_nat (nat i))"

text \<open>The text of an operand. A whole number within \<open>\<plusminus>10\<^sup>1\<^sup>5\<close> is printed by \<^verbatim>\<open>%.1f\<close> as
  its decimal digits and \<^verbatim>\<open>.0\<close>; the C library's \<^verbatim>\<open>%e\<close> conversion of the other values
  is a parameter.\<close>

fun render_operand :: "(rat \<Rightarrow> string) \<Rightarrow> operand \<Rightarrow> string" where
  "render_operand fmt_e (Tmp n) = ''%t'' @ show_int n"
| "render_operand fmt_e (Param n) = ''%arg'' @ show_int n"
| "render_operand fmt_e Zero = ''0.0''"
| "render_operand fmt_e One = ''1.0''"
| "render_operand fmt_e (LitF v) = show_int \<lfloor>v\<rfloor> @ ''.0''"
| "render_operand fmt_e (LitE v) = fmt_e v"

fun render_label :: "label \<Rightarrow> string" where
  "render_label (Label s n) = s @ show_int n"

fun commas :: "string list \<Rightarrow> string" where
  "commas [] = []"
| "commas [x] = x"
| "commas (x # y # ys) = x @ '', '' @ commas (y # ys)"

fun render :: "(rat \<Rightarrow> string) \<Rightarrow> ir \<Rightarrow> string" where
  "render e (IBin opc r a b) =
     ''  %t'' @ show_int r @ '' = '' @ opc @ '' double '' @ render_operand e a @ '', ''
       @ render_operand e b"
| "render e (IFcmp pred r a b) =
     ''  %t'' @ show_int r @ '' = fcmp '' @ pred @ '' double '' @ render_operand e a @ '', ''
       @ render_operand e b"
| "render e (IUitofp r c) =
     ''  %t'' @ show_int r @ '' = uitofp i1 %t'' @ show_int c @ '' to double''"
| "render e (ILogic opc r a b) =
     ''  %t'' @ show_int r @ '' = '' @ opc @ '' i1 %t'' @ show_int a @ '', %t'' @ show_int b"
| "render e (ILoad r l) =
     ''  %t'' @ show_int r @ '' = load double, double* %local'' @ show_int l"
| "render e (IStore v l) =
     ''  store double '' @ render_operand e v @ '', double* %local'' @ show_int l"
| "render e (IAlloca l) = ''  %local'' @ show_int l @ '' = alloca double''"
| "render e (ICall r f args) =
     ''  %t'' @ show_int r @ '' = call double @'' @ f @ ''(''
       @ commas (map (\<lambda>a. ''double %t'' @ show_int a) args) @ '')''"
| "render e (IComment s) = ''  ; '' @ s"
| "render e (IRet v) = ''  ret double '' @ render_operand e v"
| "render e (IBr l) = ''  br label %'' @ render_label l"
| "render e (ICondBr c l1 l2) =
     ''  br i1 %t'' @ show_int c @ '', label %'' @ render_label l1 @ '', label %''
       @ render_label l2"
| "render e (ILabel l) = render_label l @ '':''"
| "render e (IStrPtr r n i) =
     ''  %t'' @ show_int r @ '' = getelementptr ['' @ show_nat n @ '' x i8], ['' @ show_nat n
       @ '' x i8]* @.str'' @ show_int i @ '', i32 0, i32 0''"
| "render e (IPrintStr p) =
     ''  call i32 (i8*, ...) @printf(i8* getelementptr ([4 x i8], [4 x i8]* @.fmt_str, i32 0, i32 0), i8* %t''
       @ show_int p @ '')''"
| "render e (IPrintNum v) =
     ''  call i32 (i8*, ...) @printf(i8* getelementptr ([4 x i8], [4 x i8]* @.fmt_num, i32 0, i32 0), double %t''
       @ show_int v @ '')''"
| "render e (IDefine f n) =
     ''define double @'' @ f @ ''('' @ commas (map (\<lambda>i. ''double %arg'' @ show_nat i) [0..<n])
       @ '') {''"
| "render e IEntry = ''entry:''"
| "render e IClose = [CHR ''}'', CHR 0x0A]"
| "render e (IText s) = s"
| "render e (IStrConst i n bytes) =
     ''@.str'' @ show_nat i @ '' = private constant ['' @ show_nat n @ '' x i8] c'' @ [CHR 0x22]
       @ bytes @ [CHR 0x5C] @ ''00'' @ [CHR 0x22]"

section \<open>Code generator (src/codegen.c)\<close>

text \<open>Where the C code would read through a pointer that it must not read, the model
  stops with a fault instead of a result.\<close>

datatype fault =
    NullDeref     \<comment> \<open>a field of a null node pointer is read\<close>
  | BadPointer    \<comment> \<open>an uninitialised or already freed pointer is read or freed\<close>

text \<open>The struct \<^verbatim>\<open>CodeGen\<close>. \<open>out\<close> is what has been written to the output file and
  \<open>diag\<close> what has been written to \<^verbatim>\<open>stderr\<close>, line by line. \<open>locals\<close> holds the
  slots \<^verbatim>\<open>0 .. local_count - 1\<close> of the parallel arrays \<^verbatim>\<open>local_names\<close> and
  \<^verbatim>\<open>local_regs\<close>; \<open>None\<close> is a slot that \<^verbatim>\<open>local_count\<close> counts but that was never
  written (a \<^verbatim>\<open>repeat\<close> without \<^verbatim>\<open>as\<close> leaves one). The capacities and the
  \<^verbatim>\<open>current_func\<close> field, which nothing reads, are left out.\<close>

record CodeGen =
  out :: "ir list"
  diag :: "string list"
  temp_counter :: int
  label_counter :: int
  string_counter :: int
  param_names :: "string list"
  locals :: "(string \<times> int) option list"
  string_literals :: "string list"

definition codegen_create :: CodeGen where
  "codegen_create = \<lparr>out = [], diag = [], temp_counter = 0, label_counter = 0,
     string_counter = 0, param_names = [], locals = [], string_literals = []\<rparr>"

definition emit :: "CodeGen \<Rightarrow> ir \<Rightarrow> CodeGen" where
  "emit cg i = cg\<lparr>out := out cg @ [i]\<rparr>"

definition report :: "CodeGen \<Rightarrow> string \<Rightarrow> CodeGen" where
  "report cg msg = cg\<lparr>diag := diag cg @ [msg]\<rparr>"

definition next_temp :: "CodeGen \<Rightarrow> int \<times> CodeGen" where
  "next_temp cg = (temp_counter cg, cg\<lparr>temp_counter := temp_counter cg + 1\<rparr>)"

definition next_label :: "CodeGen \<Rightarrow> int \<times> CodeGen" where
  "next_label cg = (label_counter cg, cg\<lparr>label_counter := label_counter cg + 1\<rparr>)"

definition local_count :: "CodeGen \<Rightarrow> int" where
  "local_count cg = int (length (locals cg))"

definition add_local :: "CodeGen \<Rightarrow> string \<Rightarrow> int \<Rightarrow> CodeGen" where
  "add_local cg name reg = cg\<lparr>locals := locals cg @ [Some (name, reg)]\<rparr>"

text \<open>\<^verbatim>\<open>find_local\<close> compares the name with every slot in turn; the first match wins.
  Comparing with a slot that was never written reads an indeterminate pointer.\<close>

fun find_local_in :: "(string \<times> int) option list \<Rightarrow> string \<Rightarrow> fault + int" where
  "find_local_in [] name = Inr (- 1)"
| "find_local_in (None # slots) name = Inl BadPointer"
| "find_local_in (Some (n, reg) # slots) name =
     (if n = name then Inr reg else find_local_in slots name)"

definition find_local :: "CodeGen \<Rightarrow> string \<Rightarrow> fault + int" where
  "find_local cg name = find_local_in (locals cg) name"

fun find_param_from :: "string list \<Rightarrow> int \<Rightarrow> string \<Rightarrow> int" where
  "find_param_from [] i name = - 1"
| "find_param_from (n # ns) i name = (if n = name then i else find_param_from ns (i + 1) name)"

definition find_param :: "CodeGen \<Rightarrow> string \<Rightarrow> int" where
  "find_param cg name = find_param_from (param_names cg) 0 name"

text \<open>\<^verbatim>\<open>clear_locals\<close> frees every name; freeing a slot that was never written is a fault.\<close>

definition clear_locals :: "CodeGen \<Rightarrow> fault + CodeGen" where
  "clear_locals cg =
     (if None \<in> set (locals cg) then Inl BadPointer
      else Inr (cg\<lparr>locals := [], temp_counter := 0\<rparr>))"

subsection \<open>String literals\<close>

fun collect_strings_expr :: "CodeGen \<Rightarrow> expr \<Rightarrow> CodeGen"
  and collect_strings_exprs :: "CodeGen \<Rightarrow> expr list \<Rightarrow> CodeGen"
where
  "collect_strings_expr cg (NODE_STR s) = cg\<lparr>string_literals := string_literals cg @ [s]\<rparr>"
| "collect_strings_expr cg (NODE_BINOP opr l r) =
     collect_strings_expr (collect_strings_expr cg l) r"
| "collect_strings_expr cg (NODE_UNARYOP opr e) = collect_strings_expr cg e"
| "collect_strings_expr cg (NODE_CALL m f args) = collect_strings_exprs cg args"
| "collect_strings_expr cg (NODE_NUM v) = cg"
| "collect_strings_expr cg (NODE_BOOL b) = cg"
| "collect_strings_expr cg (NODE_VAR n) = cg"
| "collect_strings_expr cg (NODE_POSITIONAL i) = cg"
| "collect_strings_exprs cg [] = cg"
| "collect_strings_exprs cg (e # es) = collect_strings_exprs (collect_strings_expr cg e) es"

text \<open>The statement pass reads the tag of every branch of an \<^verbatim>\<open>if\<close> that is not null.\<close>

function (sequential) collect_strings_stmt :: "CodeGen \<Rightarrow> stmt \<Rightarrow> fault + CodeGen"
  and collect_strings_ptr :: "CodeGen \<Rightarrow> stmt ptr \<Rightarrow> fault + CodeGen"
  and collect_strings_stmts :: "CodeGen \<Rightarrow> stmt list \<Rightarrow> fault + CodeGen"
where
  "collect_strings_stmt cg (NODE_OUT v) = Inr (collect_strings_expr cg v)"
| "collect_strings_stmt cg (NODE_RETURN variant v) = Inr (collect_strings_expr cg v)"
| "collect_strings_stmt cg (NODE_IF c t e) =
     (case collect_strings_ptr (collect_strings_expr cg c) t of
        Inl f \<Rightarrow> Inl f
      | Inr cg1 \<Rightarrow> collect_strings_ptr cg1 e)"
| "collect_strings_stmt cg (NODE_LET n v) = Inr (collect_strings_expr cg v)"
| "collect_strings_stmt cg (NODE_EXPR_STMT e) = Inr (collect_strings_expr cg e)"
| "collect_strings_stmt cg (NODE_REPEAT c v b) =
     collect_strings_stmts (collect_strings_expr cg c) b"
| "collect_strings_stmt cg (NODE_WHILE c b) =
     collect_strings_stmts (collect_strings_expr cg c) b"
| "collect_strings_stmt cg (NODE_INC n a) = Inr cg"
| "collect_strings_stmt cg (NODE_DEC n a) = Inr cg"
| "collect_strings_ptr cg Null = Inr cg"
| "collect_strings_ptr cg Dangling = Inl BadPointer"
| "collect_strings_ptr cg (Ptr s) = collect_strings_stmt cg s"
| "collect_strings_stmts cg [] = Inr cg"
| "collect_strings_stmts cg (s # ss) =
     (case collect_strings_stmt cg s of
        Inl f \<Rightarrow> Inl f
      | Inr cg1 \<Rightarrow> collect_strings_stmts cg1 ss)"
  by pat_completeness auto
termination
  by (relation "measure (\<lambda>x. case x of Inl (cg, s) \<Rightarrow> size s
                               | Inr (Inl (cg, p)) \<Rightarrow> size_ptr size p
                               | Inr (Inr (cg, ss)) \<Rightarrow> size_list size ss)") auto

fun collect_strings_funcs :: "CodeGen \<Rightarrow> func_def list \<Rightarrow> fault + CodeGen" where
  "collect_strings_funcs cg [] = Inr cg"
| "collect_strings_funcs cg (f # fs) =
     (case collect_strings_stmts cg (fbody f) of
        Inl e \<Rightarrow> Inl e
      | Inr cg1 \<Rightarrow> collect_strings_funcs cg1 fs)"

definition collect_strings :: "CodeGen \<Rightarrow> program \<Rightarrow> fault + CodeGen" where
  "collect_strings cg prog = collect_strings_funcs cg (prog_functions prog)"

subsection \<open>Expressions\<close>

definition apostrophe :: string where
  "apostrophe = [CHR 0x27]"

text \<open>\<^verbatim>\<open>val == (long long)val && val >= -1e15 && val <= 1e15\<close>\<close>

definition prints_as_whole :: "rat \<Rightarrow> bool" where
  "prints_as_whole val \<longleftrightarrow> val = of_int \<lfloor>val\<rfloor> \<and> - (10 ^ 15) \<le> val \<and> val \<le> 10 ^ 15"

text \<open>The operator chain of the \<^verbatim>\<open>NODE_BINOP\<close> case, entered once both operands have been
  lowered to \<open>left_reg\<close> and \<open>right_reg\<close>.\<close>

definition emit_arith :: "CodeGen \<Rightarrow> string \<Rightarrow> int \<Rightarrow> int \<Rightarrow> int \<Rightarrow> int \<times> CodeGen" where
  "emit_arith cg opc result_reg left_reg right_reg =
     (result_reg, emit cg (IBin opc result_reg (Tmp left_reg) (Tmp right_reg)))"

definition emit_compare :: "CodeGen \<Rightarrow> string \<Rightarrow> int \<Rightarrow> int \<Rightarrow> int \<Rightarrow> int \<times> CodeGen" where
  "emit_compare cg pred result_reg left_reg right_reg =
     (case next_temp cg of
        (cmp_reg, cg1) \<Rightarrow>
          (result_reg,
           emit (emit cg1 (IFcmp pred cmp_reg (Tmp left_reg) (Tmp right_reg)))
                (IUitofp result_reg cmp_reg)))"

definition emit_logic :: "CodeGen \<Rightarrow> string \<Rightarrow> int \<Rightarrow> int \<Rightarrow> int \<Rightarrow> int \<times> CodeGen" where
  "emit_logic cg opc result_reg left_reg right_reg =
     (case next_temp cg of
        (left_bool, cg1) \<Rightarrow>
          (case next_temp cg1 of
             (right_bool, cg2) \<Rightarrow>
               (case next_temp cg2 of
                  (logic_reg, cg3) \<Rightarrow>
                    (result_reg,
                     emit (emit (emit (emit cg3
                       (IFcmp ''one'' left_bool (Tmp left_reg) Zero))
                       (IFcmp ''one'' right_bool (Tmp right_reg) Zero))
                       (ILogic opc logic_reg left_bool right_bool))
                       (IUitofp result_reg logic_reg)))))"

definition codegen_binop :: "CodeGen \<Rightarrow> string \<Rightarrow> int \<Rightarrow> int \<Rightarrow> int \<times> CodeGen" where
  "codegen_binop cg opr left_reg right_reg =
     (case next_temp cg of
        (result_reg, cg1) \<Rightarrow>
          if opr = ''plus'' then emit_arith cg1 ''fadd'' result_reg left_reg right_reg
          else if opr = ''minus'' then emit_arith cg1 ''fsub'' result_reg left_reg right_reg
          else if opr = ''times'' then emit_arith cg1 ''fmul'' result_reg left_reg right_reg
          else if opr = ''over'' then emit_arith cg1 ''fdiv'' result_reg left_reg right_reg
          else if opr = ''mod'' then emit_arith cg1 ''frem'' result_reg left_reg right_reg
          else if opr = ''eq'' then emit_compare cg1 ''oeq'' result_reg left_reg right_reg
          else if opr = ''neq'' then emit_compare cg1 ''one'' result_reg left_reg right_reg
          else if opr = ''lt'' then emit_compare cg1 ''olt'' result_reg left_reg right_reg
          else if opr = ''gt'' then emit_compare cg1 ''ogt'' result_reg left_reg right_reg
          else if opr = ''lte'' then emit_compare cg1 ''ole'' result_reg left_reg right_reg
          else if opr = ''gte'' then emit_compare cg1 ''oge'' result_reg left_reg right_reg
          else if opr = ''and'' then emit_logic cg1 ''and'' result_reg left_reg right_reg
          else if opr = ''or'' then emit_logic cg1 ''or'' result_reg left_reg right_reg
          else (- 1, report cg1 (''Error: Unknown operator '' @ apostrophe @ opr @ apostrophe)))"

definition codegen_unaryop :: "CodeGen \<Rightarrow> string \<Rightarrow> int \<Rightarrow> int \<times> CodeGen" where
  "codegen_unaryop cg opr operand_reg =
     (case next_temp cg of
        (result_reg, cg1) \<Rightarrow>
          if opr = ''not'' then
            (case next_temp cg1 of
               (bool_reg, cg2) \<Rightarrow>
                 (result_reg,
                  emit (emit cg2 (IFcmp ''oeq'' bool_reg (Tmp operand_reg) Zero))
                       (IUitofp result_reg bool_reg)))
          else if opr = ''neg'' then
            (result_reg, emit cg1 (IBin ''fsub'' result_reg Zero (Tmp operand_reg)))
          else (result_reg, cg1))"

text \<open>The one-argument and the two-argument intrinsics of the \<^verbatim>\<open>math\<close> module.\<close>

definition math_unary :: "(string \<times> string) list" where
  "math_unary =
     [(''abs'', ''llvm.fabs.f64''), (''sqrt'', ''llvm.sqrt.f64''), (''floor'', ''llvm.floor.f64''),
      (''ceil'', ''llvm.ceil.f64''), (''sin'', ''llvm.sin.f64''), (''cos'', ''llvm.cos.f64'')]"

definition math_binary :: "(string \<times> string) list" where
  "math_binary =
     [(''min'', ''llvm.minnum.f64''), (''max'', ''llvm.maxnum.f64''), (''pow'', ''llvm.pow.f64'')]"

text \<open>\<^verbatim>\<open>codegen_expr\<close> returns the register that holds the value, or \<open>-1\<close>.\<close>

fun codegen_expr :: "CodeGen \<Rightarrow> expr \<Rightarrow> fault + int \<times> CodeGen"
  and codegen_args :: "CodeGen \<Rightarrow> expr list \<Rightarrow> fault + int list \<times> CodeGen"
where
  "codegen_expr cg (NODE_NUM val) =
     (case next_temp cg of
        (reg, cg1) \<Rightarrow>
          Inr (reg, emit cg1 (IBin ''fadd'' reg Zero
                               (if prints_as_whole val then LitF val else LitE val))))"
| "codegen_expr cg (NODE_STR s) =
     (case next_temp cg of
        (reg, cg1) \<Rightarrow>
          Inr (reg, emit (emit cg1 (IComment (''string: '' @ [CHR 0x22] @ s @ [CHR 0x22])))
                         (IBin ''fadd'' reg Zero Zero)))"
| "codegen_expr cg (NODE_BOOL b) =
     (case next_temp cg of
        (reg, cg1) \<Rightarrow> Inr (reg, emit cg1 (IBin ''fadd'' reg Zero (if b then One else Zero))))"
| "codegen_expr cg (NODE_VAR name) =
     (case find_local cg name of
        Inl f \<Rightarrow> Inl f
      | Inr local_reg \<Rightarrow>
          if local_reg \<ge> 0 then
            (case next_temp cg of (reg, cg1) \<Rightarrow> Inr (reg, emit cg1 (ILoad reg local_reg)))
          else if find_param cg name \<ge> 0 then
            (case next_temp cg of
               (reg, cg1) \<Rightarrow>
                 Inr (reg, emit cg1 (IBin ''fadd'' reg Zero (Param (find_param cg name)))))
          else
            Inr (- 1, report cg (''Error: Unknown variable '' @ apostrophe @ name @ apostrophe)))"
| "codegen_expr cg (NODE_POSITIONAL idx) =
     (case next_temp cg of
        (reg, cg1) \<Rightarrow> Inr (reg, emit cg1 (IBin ''fadd'' reg Zero (Param idx))))"
| "codegen_expr cg (NODE_BINOP opr l r) =
     (case codegen_expr cg l of
        Inl f \<Rightarrow> Inl f
      | Inr (left_reg, cg1) \<Rightarrow>
          (case codegen_expr cg1 r of
             Inl f \<Rightarrow> Inl f
           | Inr (right_reg, cg2) \<Rightarrow>
               if left_reg < 0 \<or> right_reg < 0 then Inr (- 1, cg2)
               else Inr (codegen_binop cg2 opr left_reg right_reg)))"
| "codegen_expr cg (NODE_UNARYOP opr e) =
     (case codegen_expr cg e of
        Inl f \<Rightarrow> Inl f
      | Inr (operand_reg, cg1) \<Rightarrow>
          if operand_reg < 0 then Inr (- 1, cg1)
          else Inr (codegen_unaryop cg1 opr operand_reg))"
| "codegen_expr cg (NODE_CALL None func args) =
     (case next_temp cg of
        (result_reg, cg1) \<Rightarrow>
          (case codegen_args (emit cg1 (IComment (''call '' @ func))) args of
             Inl f \<Rightarrow> Inl f
           | Inr (arg_regs, cg2) \<Rightarrow> Inr (result_reg, emit cg2 (ICall result_reg func arg_regs))))"
| "codegen_expr cg (NODE_CALL (Some modname) func args) =
     (case next_temp cg of
        (result_reg, cg1) \<Rightarrow>
          (let cg2 = emit cg1 (IComment (''call '' @ modname @ ''.'' @ func)) in
           if modname = ''math'' then
             (case args of
                [] \<Rightarrow> Inr (result_reg, emit cg2 (IBin ''fadd'' result_reg Zero Zero))
              | a0 # rest \<Rightarrow>
                  (case codegen_expr cg2 a0 of
                     Inl f \<Rightarrow> Inl f
                   | Inr (arg_reg, cg3) \<Rightarrow>
                       (case map_of math_unary func of
                          Some intrinsic \<Rightarrow>
                            Inr (result_reg, emit cg3 (ICall result_reg intrinsic [arg_reg]))
                        | None \<Rightarrow>
                            (case rest of
                               [] \<Rightarrow> Inr (result_reg, emit cg3 (IBin ''fadd'' result_reg Zero Zero))
                             | a1 # rest' \<Rightarrow>
                                 (case codegen_expr cg3 a1 of
                                    Inl f \<Rightarrow> Inl f
                                  | Inr (arg2_reg, cg4) \<Rightarrow>
                                      (case map_of math_binary func of
                                         Some intrinsic \<Rightarrow>
                                           Inr (result_reg,
                                                emit cg4 (ICall result_reg intrinsic
                                                            [arg_reg, arg2_reg]))
                                       | None \<Rightarrow>
                                           Inr (result_reg,
                                                emit cg4 (IBin ''fadd'' result_reg Zero Zero))))))))
           else Inr (result_reg, emit cg2 (IBin ''fadd'' result_reg Zero Zero))))"
| "codegen_args cg [] = Inr ([], cg)"
| "codegen_args cg (a # as) =
     (case codegen_expr cg a of
        Inl f \<Rightarrow> Inl f
      | Inr (reg, cg1) \<Rightarrow>
          (case codegen_args cg1 as of
             Inl f \<Rightarrow> Inl f
           | Inr (regs, cg2) \<Rightarrow> Inr (reg # regs, cg2)))"

subsection \<open>Statements\<close>

fun is_return :: "stmt \<Rightarrow> bool" where
  "is_return (NODE_RETURN variant v) = True"
| "is_return _ = False"

text \<open>\<^verbatim>\<open>p->type == NODE_RETURN\<close> for a branch pointer \<open>p\<close>.\<close>

fun ptr_is_return :: "stmt ptr \<Rightarrow> fault + bool" where
  "ptr_is_return Null = Inl NullDeref"
| "ptr_is_return Dangling = Inl BadPointer"
| "ptr_is_return (Ptr s) = Inr (is_return s)"

text \<open>Three consecutive calls of \<^verbatim>\<open>next_label\<close>.\<close>

definition next_labels3 :: "CodeGen \<Rightarrow> (int \<times> int \<times> int) \<times> CodeGen" where
  "next_labels3 cg =
     (case next_label cg of
        (l1, cg1) \<Rightarrow>
          (case next_label cg1 of
             (l2, cg2) \<Rightarrow> (case next_label cg2 of (l3, cg3) \<Rightarrow> ((l1, l2, l3), cg3))))"

text \<open>The \<^verbatim>\<open>NODE_REPEAT\<close> case from the allocation of the counter up to the label of the
  loop body, and from the increment of the counter to the end label. \<open>repeat_enter\<close>
  returns the counter slot and the numbers of the start and end labels.\<close>

definition repeat_enter ::
  "CodeGen \<Rightarrow> int \<Rightarrow> string option \<Rightarrow> (int \<times> int \<times> int) \<times> CodeGen" where
  "repeat_enter cg count_reg var_name =
     (case next_labels3 cg of
        ((loop_start, loop_body, loop_end), cg1) \<Rightarrow>
          (let counter_id = local_count cg1;
               cg2 = emit (emit cg1 (IAlloca counter_id)) (IStore One counter_id);
               cg3 = (case var_name of
                        Some v \<Rightarrow> add_local cg2 v counter_id
                      | None \<Rightarrow> cg2\<lparr>locals := locals cg2 @ [None]\<rparr>);
               cg4 = emit (emit cg3 (IBr (Label ''loop_start'' loop_start)))
                          (ILabel (Label ''loop_start'' loop_start))
           in case next_temp cg4 of
                (counter_val, cg5) \<Rightarrow>
                  (case next_temp (emit cg5 (ILoad counter_val counter_id)) of
                     (cmp_reg, cg6) \<Rightarrow>
                       ((counter_id, loop_start, loop_end),
                        emit (emit (emit cg6
                          (IFcmp ''ole'' cmp_reg (Tmp counter_val) (Tmp count_reg)))
                          (ICondBr cmp_reg (Label ''loop_body'' loop_body)
                                           (Label ''loop_end'' loop_end)))
                          (ILabel (Label ''loop_body'' loop_body))))))"

definition repeat_leave :: "CodeGen \<Rightarrow> int \<Rightarrow> int \<Rightarrow> int \<Rightarrow> CodeGen" where
  "repeat_leave cg counter_id loop_start loop_end =
     (case next_temp cg of
        (inc_load, cg1) \<Rightarrow>
          (case next_temp cg1 of
             (inc_add, cg2) \<Rightarrow>
               emit (emit (emit (emit (emit cg2
                 (ILoad inc_load counter_id))
                 (IBin ''fadd'' inc_add (Tmp inc_load) One))
                 (IStore (Tmp inc_add) counter_id))
                 (IBr (Label ''loop_start'' loop_start)))
                 (ILabel (Label ''loop_end'' loop_end))))"

text \<open>The \<^verbatim>\<open>NODE_INC\<close> and \<^verbatim>\<open>NODE_DEC\<close> cases after the lookup of the variable: the load,
  the amount (\<open>None\<close>: the constant one), the operation \<open>opc\<close> and the store.\<close>

definition codegen_update ::
  "CodeGen \<Rightarrow> string \<Rightarrow> int \<Rightarrow> expr option \<Rightarrow> fault + CodeGen" where
  "codegen_update cg opc existing amount =
     (case next_temp cg of
        (load_reg, cg1) \<Rightarrow>
          (case (case amount of
                   Some a \<Rightarrow> codegen_expr (emit cg1 (ILoad load_reg existing)) a
                 | None \<Rightarrow>
                     (case next_temp (emit cg1 (ILoad load_reg existing)) of
                        (amount_reg, cg2) \<Rightarrow>
                          Inr (amount_reg, emit cg2 (IBin ''fadd'' amount_reg Zero One)))) of
             Inl f \<Rightarrow> Inl f
           | Inr (amount_reg, cg3) \<Rightarrow>
               (case next_temp cg3 of
                  (result_reg, cg4) \<Rightarrow>
                    Inr (emit (emit cg4
                      (IBin opc result_reg (Tmp load_reg) (Tmp amount_reg)))
                      (IStore (Tmp result_reg) existing)))))"

definition codegen_let :: "CodeGen \<Rightarrow> string \<Rightarrow> int \<Rightarrow> fault + CodeGen" where
  "codegen_let cg name val_reg =
     (case find_local cg name of
        Inl f \<Rightarrow> Inl f
      | Inr existing \<Rightarrow>
          if existing \<ge> 0 then Inr (emit cg (IStore (Tmp val_reg) existing))
          else
            (let local_id = local_count cg
             in Inr (add_local
                      (emit (emit cg (IAlloca local_id)) (IStore (Tmp val_reg) local_id))
                      name local_id)))"

definition codegen_out_str :: "CodeGen \<Rightarrow> string \<Rightarrow> CodeGen" where
  "codegen_out_str cg s =
     (let str_id = string_counter cg
      in case next_temp (cg\<lparr>string_counter := string_counter cg + 1\<rparr>) of
           (ptr_reg, cg1) \<Rightarrow>
             emit (emit cg1 (IStrPtr ptr_reg (length s + 1) str_id)) (IPrintStr ptr_reg))"

function (sequential) codegen_stmt :: "CodeGen \<Rightarrow> stmt \<Rightarrow> fault + CodeGen"
  and codegen_ptr :: "CodeGen \<Rightarrow> stmt ptr \<Rightarrow> fault + CodeGen"
  and codegen_stmts :: "CodeGen \<Rightarrow> stmt list \<Rightarrow> fault + CodeGen"
where
  "codegen_stmt cg (NODE_RETURN variant v) =
     (case codegen_expr cg v of
        Inl f \<Rightarrow> Inl f
      | Inr (val_reg, cg1) \<Rightarrow>
          Inr (if val_reg \<ge> 0 then emit cg1 (IRet (Tmp val_reg)) else cg1))"
| "codegen_stmt cg (NODE_IF c t e) =
     (case codegen_expr cg c of
        Inl f \<Rightarrow> Inl f
      | Inr (cond_reg, cg1) \<Rightarrow>
          if cond_reg < 0 then Inr cg1
          else
            (case next_temp cg1 of
               (bool_reg, cg2) \<Rightarrow>
                 (case next_labels3 cg2 of
                    ((then_label, else_label, end_label), cg3) \<Rightarrow>
                      (let cg4 = emit cg3 (IFcmp ''one'' bool_reg (Tmp cond_reg) Zero) in
                       if e \<noteq> Null then
                         (case codegen_ptr
                                 (emit (emit cg4
                                    (ICondBr bool_reg (Label ''then'' then_label)
                                                      (Label ''else'' else_label)))
                                    (ILabel (Label ''then'' then_label))) t of
                            Inl f \<Rightarrow> Inl f
                          | Inr cg5 \<Rightarrow>
                              (case ptr_is_return t of
                                 Inl f \<Rightarrow> Inl f
                               | Inr then_returns \<Rightarrow>
                                   (case codegen_ptr
                                           (emit (if \<not> then_returns
                                                  then emit cg5 (IBr (Label ''end'' end_label))
                                                  else cg5)
                                              (ILabel (Label ''else'' else_label))) e of
                                      Inl f \<Rightarrow> Inl f
                                    | Inr cg6 \<Rightarrow>
                                        (case ptr_is_return e of
                                           Inl f \<Rightarrow> Inl f
                                         | Inr else_returns \<Rightarrow>
                                             Inr (emit (if \<not> else_returns
                                                        then emit cg6 (IBr (Label ''end'' end_label))
                                                        else cg6)
                                                    (ILabel (Label ''end'' end_label)))))))
                       else
                         (case codegen_ptr
                                 (emit (emit cg4
                                    (ICondBr bool_reg (Label ''then'' then_label)
                                                      (Label ''end'' end_label)))
                                    (ILabel (Label ''then'' then_label))) t of
                            Inl f \<Rightarrow> Inl f
                          | Inr cg5 \<Rightarrow>
                              (case ptr_is_return t of
                                 Inl f \<Rightarrow> Inl f
                               | Inr then_returns \<Rightarrow>
                                   Inr (emit (if \<not> then_returns
                                              then emit cg5 (IBr (Label ''end'' end_label))
                                              else cg5)
                                          (ILabel (Label ''end'' end_label)))))))))"
| "codegen_stmt cg (NODE_LET name v) =
     (case codegen_expr cg v of
        Inl f \<Rightarrow> Inl f
      | Inr (val_reg, cg1) \<Rightarrow> if val_reg < 0 then Inr cg1 else codegen_let cg1 name val_reg)"
| "codegen_stmt cg (NODE_EXPR_STMT e) =
     (case codegen_expr cg e of
        Inl f \<Rightarrow> Inl f
      | Inr (reg, cg1) \<Rightarrow> Inr cg1)"
| "codegen_stmt cg (NODE_REPEAT cnt var_name stmts) =
     (case codegen_expr cg cnt of
        Inl f \<Rightarrow> Inl f
      | Inr (count_reg, cg1) \<Rightarrow>
          if count_reg < 0 then Inr cg1
          else
            (case repeat_enter cg1 count_reg var_name of
               ((counter_id, loop_start, loop_end), cg2) \<Rightarrow>
                 (case codegen_stmts cg2 stmts of
                    Inl f \<Rightarrow> Inl f
                  | Inr cg3 \<Rightarrow> Inr (repeat_leave cg3 counter_id loop_start loop_end))))"
| "codegen_stmt cg (NODE_WHILE c stmts) =
     (case next_labels3 cg of
        ((loop_start, loop_body, loop_end), cg1) \<Rightarrow>
          (case codegen_expr
                  (emit (emit cg1 (IBr (Label ''while_start'' loop_start)))
                        (ILabel (Label ''while_start'' loop_start))) c of
             Inl f \<Rightarrow> Inl f
           | Inr (cond_reg, cg2) \<Rightarrow>
               if cond_reg < 0 then Inr cg2
               else
                 (case next_temp cg2 of
                    (bool_reg, cg3) \<Rightarrow>
                      (case codegen_stmts
                              (emit (emit (emit cg3
                                 (IFcmp ''one'' bool_reg (Tmp cond_reg) Zero))
                                 (ICondBr bool_reg (Label ''while_body'' loop_body)
                                                   (Label ''while_end'' loop_end)))
                                 (ILabel (Label ''while_body'' loop_body))) stmts of
                         Inl f \<Rightarrow> Inl f
                       | Inr cg4 \<Rightarrow>
                           Inr (emit (emit cg4 (IBr (Label ''while_start'' loop_start)))
                                     (ILabel (Label ''while_end'' loop_end)))))))"
| "codegen_stmt cg (NODE_INC var_name amount) =
     (case find_local cg var_name of
        Inl f \<Rightarrow> Inl f
      | Inr existing \<Rightarrow>
          if existing < 0 then
            Inr (report cg (''Error: Unknown variable '' @ apostrophe @ var_name @ apostrophe
                            @ '' in inc''))
          else codegen_update cg ''fadd'' existing amount)"
| "codegen_stmt cg (NODE_DEC var_name amount) =
     (case find_local cg var_name of
        Inl f \<Rightarrow> Inl f
      | Inr existing \<Rightarrow>
          if existing < 0 then
            Inr (report cg (''Error: Unknown variable '' @ apostrophe @ var_name @ apostrophe
                            @ '' in dec''))
          else codegen_update cg ''fsub'' existing amount)"
| "codegen_stmt cg (NODE_OUT (NODE_STR s)) = Inr (codegen_out_str cg s)"
| "codegen_stmt cg (NODE_OUT v) =
     (case codegen_expr cg v of
        Inl f \<Rightarrow> Inl f
      | Inr (val_reg, cg1) \<Rightarrow> Inr (if val_reg \<ge> 0 then emit cg1 (IPrintNum val_reg) else cg1))"
| "codegen_ptr cg Null = Inr cg"
| "codegen_ptr cg Dangling = Inl BadPointer"
| "codegen_ptr cg (Ptr s) = codegen_stmt cg s"
| "codegen_stmts cg [] = Inr cg"
| "codegen_stmts cg (s # ss) =
     (case codegen_stmt cg s of
        Inl f \<Rightarrow> Inl f
      | Inr cg1 \<Rightarrow> codegen_stmts cg1 ss)"
  by pat_completeness auto
termination
  by (relation "measure (\<lambda>x. case x of Inl (cg, s) \<Rightarrow> size s
                               | Inr (Inl (cg, p)) \<Rightarrow> size_ptr size p
                               | Inr (Inr (cg, ss)) \<Rightarrow> size_list size ss)") auto

text \<open>\<^verbatim>\<open>codegen_func\<close>: the signature, the body and, when no statement of the body itself
  is a return, the default return.\<close>

definition codegen_func :: "CodeGen \<Rightarrow> func_def \<Rightarrow> fault + CodeGen" where
  "codegen_func cg func =
     (case clear_locals cg of
        Inl f \<Rightarrow> Inl f
      | Inr cg1 \<Rightarrow>
          (case codegen_stmts
                  (emit (emit (cg1\<lparr>param_names := fparams func\<rparr>)
                     (IDefine (fname func) (length (fparams func))))
                     IEntry)
                  (fbody func) of
             Inl f \<Rightarrow> Inl f
           | Inr cg2 \<Rightarrow>
               Inr ((emit (if \<not> (\<exists>stmt \<in> set (fbody func). is_return stmt)
                           then emit cg2 (IRet Zero) else cg2)
                       IClose)\<lparr>param_names := []\<rparr>)))"

fun codegen_funcs :: "CodeGen \<Rightarrow> func_def list \<Rightarrow> fault + CodeGen" where
  "codegen_funcs cg [] = Inr cg"
| "codegen_funcs cg (f # fs) =
     (case codegen_func cg f of
        Inl e \<Rightarrow> Inl e
      | Inr cg1 \<Rightarrow> codegen_funcs cg1 fs)"

subsection \<open>The module\<close>

definition dquote :: string where
  "dquote = [CHR 0x22]"

definition backslash :: string where
  "backslash = [CHR 0x5C]"

text \<open>The fixed lines that \<^verbatim>\<open>codegen_llvm\<close> writes first.\<close>

definition module_header :: "ir list" where
  "module_header = map IText
     [''; NERD Compiled Program'',
      ''; Generated by NERD Bootstrap Compiler'',
      '''',
      ''declare double @llvm.fabs.f64(double)'',
      ''declare double @llvm.sqrt.f64(double)'',
      ''declare double @llvm.floor.f64(double)'',
      ''declare double @llvm.ceil.f64(double)'',
      ''declare double @llvm.sin.f64(double)'',
      ''declare double @llvm.cos.f64(double)'',
      ''declare double @llvm.pow.f64(double, double)'',
      ''declare double @llvm.minnum.f64(double, double)'',
      ''declare double @llvm.maxnum.f64(double, double)'',
      '''',
      ''declare i32 @printf(i8*, ...)'',
      '''',
      ''@.fmt_num = private constant [4 x i8] c'' @ dquote @ ''%g'' @ backslash @ ''0A''
         @ backslash @ ''00'' @ dquote,
      ''@.fmt_str = private constant [4 x i8] c'' @ dquote @ ''%s'' @ backslash @ ''0A''
         @ backslash @ ''00'' @ dquote,
      ''@.fmt_int = private constant [6 x i8] c'' @ dquote @ ''%.0f'' @ backslash @ ''0A''
         @ backslash @ ''00'' @ dquote,
      '''']"

text \<open>\<^verbatim>\<open>%02X\<close> of a byte, and the escaping of the bytes of a string literal.\<close>

definition hex_digit :: "nat \<Rightarrow> char" where
  "hex_digit d = (if d < 10 then char_of (48 + d) else char_of (55 + d))"

definition hex2 :: "char \<Rightarrow> string" where
  "hex2 c = [hex_digit (of_char c div 16), hex_digit (of_char c mod 16)]"

definition escape_byte :: "char \<Rightarrow> string" where
  "escape_byte c =
     (if c = CHR 0x5C \<or> c = CHR 0x22 then backslash @ hex2 c
      else if (32::nat) \<le> of_char c \<and> of_char c < (127::nat) then [c]
      else backslash @ hex2 c)"

fun string_table_from :: "nat \<Rightarrow> string list \<Rightarrow> ir list" where
  "string_table_from i [] = []"
| "string_table_from i (s # ss) =
     IStrConst i (length s + 1) (concat (map escape_byte s)) # string_table_from (i + 1) ss"

definition string_table :: "string list \<Rightarrow> ir list" where
  "string_table ss = string_table_from 0 ss @ (if length ss > 0 then [IText ''''] else [])"

text \<open>\<^verbatim>\<open>codegen_llvm\<close>. \<open>can_open\<close> says whether \<^verbatim>\<open>fopen\<close> of the output path
  succeeds. The result \<open>Inl msg\<close> is the C \<^verbatim>\<open>false\<close> with \<^verbatim>\<open>ctx->error_msg\<close> set to
  \<open>msg\<close>; \<open>Inr cg\<close> is the C \<^verbatim>\<open>true\<close>, with the text written to the output file in
  \<open>out cg\<close>. \<^verbatim>\<open>codegen_free\<close> at the end frees the names of the locals.\<close>

definition codegen_llvm :: "bool \<Rightarrow> program \<Rightarrow> fault + (string + CodeGen)" where
  "codegen_llvm can_open prog =
     (if \<not> can_open then Inr (Inl ''Failed to open output file'')
      else
        (case collect_strings (codegen_create\<lparr>out := module_header\<rparr>) prog of
           Inl f \<Rightarrow> Inl f
         | Inr cg1 \<Rightarrow>
             (case codegen_funcs (cg1\<lparr>out := out cg1 @ string_table (string_literals cg1)\<rparr>)
                     (prog_functions prog) of
                Inl f \<Rightarrow> Inl f
              | Inr cg2 \<Rightarrow> if None \<in> set (locals cg2) then Inl BadPointer else Inr (Inr cg2))))"

section \<open>Driver (src/main.c)\<close>

text \<open>The front half that \<^verbatim>\<open>cmd_compile\<close> and \<^verbatim>\<open>cmd_run\<close> share: read the file, tokenise,
  parse. \<open>file\<close> is the content of the input file, \<open>None\<close> when it cannot be read. The
  commands are modelled from the point where the command line has named the input file.\<close>

definition front_end :: "string option \<Rightarrow> program option" where
  "front_end file =
     (case file of
        None \<Rightarrow> None
      | Some src \<Rightarrow>
          (case lexer_tokenize (lexer_create src) of
             (ok, lx) \<Rightarrow> if ok then parser_parse (tokens lx) else None))"

text \<open>\<^verbatim>\<open>cmd_compile\<close> returns the exit status and, when the output file was written, the
  final state of the code generator (its \<open>out\<close> is the file, its \<open>diag\<close> the messages of
  the code generator on \<^verbatim>\<open>stderr\<close>).\<close>

definition cmd_compile :: "string option \<Rightarrow> bool \<Rightarrow> fault + int \<times> CodeGen option" where
  "cmd_compile file can_open =
     (case front_end file of
        None \<Rightarrow> Inr (1, None)
      | Some ast \<Rightarrow>
          (case codegen_llvm can_open ast of
             Inl f \<Rightarrow> Inl f
           | Inr (Inl msg) \<Rightarrow> Inr (1, None)
           | Inr (Inr cg) \<Rightarrow> Inr (0, Some cg)))"

text \<open>What \<^verbatim>\<open>cmd_run\<close> finds outside the process: the input file, whether the two files it
  writes itself can be opened, and the exit statuses of the three commands it runs through
  \<^verbatim>\<open>system\<close>.\<close>

record run_env =
  input_file :: "string option"
  can_open_ll :: bool
  can_open_main :: bool
  cat_status :: int
  clang_status :: int
  bin_status :: int

definition tmp_ll :: string where "tmp_ll = ''/tmp/nerd_out.ll''"
definition tmp_main :: string where "tmp_main = ''/tmp/nerd_main.ll''"
definition tmp_combined :: string where "tmp_combined = ''/tmp/nerd_combined.ll''"
definition tmp_bin :: string where "tmp_bin = ''/tmp/nerd_run''"

text \<open>\<^verbatim>\<open>cmd_run\<close> on a set of existing files. A successful \<^verbatim>\<open>fopen(.., "w")\<close> creates
  the file; \<^verbatim>\<open>cat\<close> and \<^verbatim>\<open>clang\<close> leave their output file behind when they succeed;
  \<^verbatim>\<open>remove\<close> deletes. The result is the value that \<^verbatim>\<open>cmd_run\<close> returns and the files
  that exist when it returns.\<close>

definition cmd_run :: "run_env \<Rightarrow> string set \<Rightarrow> fault + int \<times> string set" where
  "cmd_run env files =
     (case front_end (input_file env) of
        None \<Rightarrow> Inr (1, files)
      | Some ast \<Rightarrow>
          (case codegen_llvm (can_open_ll env) ast of
             Inl f \<Rightarrow> Inl f
           | Inr (Inl msg) \<Rightarrow> Inr (1, files)
           | Inr (Inr cg) \<Rightarrow>
               (let files1 = insert tmp_ll files in
                if \<not> can_open_main env then Inr (1, files1)
                else
                  (let files2 = insert tmp_main files1 in
                   if cat_status env \<noteq> 0 then Inr (1, files2)
                   else
                     (let files3 = insert tmp_combined files2 in
                      if clang_status env \<noteq> 0 then Inr (1, files3)
                      else
                        (let files4 = insert tmp_bin files3 in
                         Inr (bin_status env,
                              files4 - {tmp_ll} - {tmp_main} - {tmp_combined} - {tmp_bin})))))))"

section \<open>Whole compilations\<close>

text \<open>The token list of a source text, and what \<^verbatim>\<open>nerd compile\<close> does with a readable
  input file of that content when the output file can be opened: its exit status, the lines
  it writes after the module header and the string table (the function definitions), and
  the messages of the code generator.\<close>

definition tokens_of :: "string \<Rightarrow> Token list" where
  "tokens_of src = tokens (snd (lexer_tokenize (lexer_create src)))"

definition compile_status :: "string \<Rightarrow> fault + int" where
  "compile_status src = map_sum id fst (cmd_compile (Some src) True)"

definition emitted_functions :: "string \<Rightarrow> ir list" where
  "emitted_functions src =
     (case cmd_compile (Some src) True of
        Inr (st, Some cg) \<Rightarrow>
          drop (length (module_header @ string_table (string_literals cg))) (out cg)
      | _ \<Rightarrow> [])"

definition compile_messages :: "string \<Rightarrow> string list" where
  "compile_messages src =
     (case cmd_compile (Some src) True of
        Inr (st, Some cg) \<Rightarrow> diag cg
      | _ \<Rightarrow> [])"

section \<open>Claims\<close>

lemma parse_primary_not_call: "parse_primary ts \<noteq> (Some (NODE_CALL m f args), r)"
  by (simp add: parse_primary_def)

text \<open>Claim C1. A program that refers to a name which is neither a parameter nor a local
  should fail to compile with exit status 1. On the program \<^verbatim>\<open>fn f\<close> / \<^verbatim>\<open>ret x\<close> the code
  generator does report the unknown variable \<^verbatim>\<open>x\<close>, but nothing carries the failure out of
  \<^verbatim>\<open>codegen_stmt\<close>: \<^verbatim>\<open>codegen_llvm\<close> returns true, the compile command exits with
  status 0, and the function it has written has an empty body.\<close>

theorem C1_unknown_variable_exit_status:
  "compile_status ''fn f\<newline>ret x\<newline>'' = Inr 0
   \<and> compile_messages ''fn f\<newline>ret x\<newline>'' = [''Error: Unknown variable '' @ apostrophe @ ''x'' @ apostrophe]
   \<and> emitted_functions ''fn f\<newline>ret x\<newline>'' = [IDefine ''f'' 0, IEntry, IClose]"
  by code_simp

text \<open>Claim C3 (amended). For the source \<^verbatim>\<open>fn g x\<close> / \<^verbatim>\<open>if x gt zero ret ok x else ret err zero\<close>
  the emitted function branches on the condition to \<^verbatim>\<open>then0\<close> or \<^verbatim>\<open>else1\<close>; each arm ends
  in a return and neither arm branches to the end label. The label \<^verbatim>\<open>end2\<close> is emitted all
  the same, after the else arm, and the default \<^verbatim>\<open>ret double 0.0\<close> follows it. The second
  half of the statement is the same code as text.\<close>

theorem C3_inline_if_else_lowering:
  "emitted_functions ''fn g x\<newline>if x gt zero ret ok x else ret err zero\<newline>'' =
     [IDefine ''g'' 1, IEntry,
      IBin ''fadd'' 0 Zero (Param 0),
      IBin ''fadd'' 1 Zero (LitF 0),
      IFcmp ''ogt'' 3 (Tmp 0) (Tmp 1),
      IUitofp 2 3,
      IFcmp ''one'' 4 (Tmp 2) Zero,
      ICondBr 4 (Label ''then'' 0) (Label ''else'' 1),
      ILabel (Label ''then'' 0),
      IBin ''fadd'' 5 Zero (Param 0),
      IRet (Tmp 5),
      ILabel (Label ''else'' 1),
      IBin ''fadd'' 6 Zero (LitF 0),
      IRet (Tmp 6),
      ILabel (Label ''end'' 2),
      IRet Zero,
      IClose]
   \<and> map (render fmt_e) (emitted_functions ''fn g x\<newline>if x gt zero ret ok x else ret err zero\<newline>'') =
     [''define double @g(double %arg0) {'',
      ''entry:'',
      ''  %t0 = fadd double 0.0, %arg0'',
      ''  %t1 = fadd double 0.0, 0.0'',
      ''  %t3 = fcmp ogt double %t0, %t1'',
      ''  %t2 = uitofp i1 %t3 to double'',
      ''  %t4 = fcmp one double %t2, 0.0'',
      ''  br i1 %t4, label %then0, label %else1'',
      ''then0:'',
      ''  %t5 = fadd double 0.0, %arg0'',
      ''  ret double %t5'',
      ''else1:'',
      ''  %t6 = fadd double 0.0, 0.0'',
      ''  ret double %t6'',
      ''end2:'',
      ''  ret double 0.0'',
      ''}\<newline>'']"
  by code_simp

text \<open>Claim C3 as stated fails: the end label is generated.\<close>

theorem C3_counterexample:
  "ILabel (Label ''end'' 2)
     \<in> set (emitted_functions ''fn g x\<newline>if x gt zero ret ok x else ret err zero\<newline>'')"
  by code_simp

text \<open>Claim C5 (amended). \<^verbatim>\<open>parse_call\<close> returns a module-qualified call exactly when the
  leading token is one of the seven tokens \<^verbatim>\<open>math\<close>, \<^verbatim>\<open>str\<close>, \<^verbatim>\<open>list\<close>, \<^verbatim>\<open>time\<close>,
  \<^verbatim>\<open>http\<close>, \<^verbatim>\<open>json\<close>, \<^verbatim>\<open>err\<close>, the token after it is an identifier, and the arguments
  after that parse.\<close>

theorem C5_module_call_leading_token:
  "(\<exists>m f args r. parse_call ts = (Some (NODE_CALL (Some m) f args), r)) \<longleftrightarrow>
     ttype (parser_current ts) \<in>
       {TOK_MATH, TOK_STR, TOK_LIST, TOK_TIME, TOK_HTTP, TOK_JSON, TOK_ERR}
     \<and> parser_check (parser_advance ts) TOK_IDENT
     \<and> fst (parse_args (parser_advance (parser_advance ts)) []) \<noteq> None"
proof (cases "parser_check ts TOK_CALL")
  case True
  then have "ttype (parser_current ts) = TOK_CALL" by (simp add: parser_check_def)
  moreover from True have "parse_call ts \<noteq> (Some (NODE_CALL (Some m) f args), r)" for m f args r
    by (subst parse_call.simps) (auto split: prod.splits option.splits)
  ultimately show ?thesis by auto
next
  case nocall: False
  show ?thesis
  proof (cases "is_module_token ts")
    case True
    then have mem: "ttype (parser_current ts) \<in>
       {TOK_MATH, TOK_STR, TOK_LIST, TOK_TIME, TOK_HTTP, TOK_JSON, TOK_ERR}"
      by (auto simp: is_module_token_def Let_def)
    show ?thesis
    proof (cases "parser_check (parser_advance ts) TOK_IDENT")
      case ident: True
      obtain x r where pa: "parse_args (parser_advance (parser_advance ts)) [] = (x, r)"
        by (cases "parse_args (parser_advance (parser_advance ts)) []")
      with nocall True ident mem show ?thesis
        by (subst parse_call.simps) (cases x; simp add: parser_expect_def)
    next
      case False
      with nocall True show ?thesis
        by (subst parse_call.simps) (simp add: parser_expect_def)
    qed
  next
    case False
    then have "ttype (parser_current ts) \<notin>
       {TOK_MATH, TOK_STR, TOK_LIST, TOK_TIME, TOK_HTTP, TOK_JSON, TOK_ERR}"
      by (auto simp: is_module_token_def Let_def)
    moreover from nocall False have "parse_call ts = parse_primary ts"
      by (subst parse_call.simps) simp
    ultimately show ?thesis by (simp add: parse_primary_not_call)
  qed
qed

theorem C5_module_call_witness:
  "\<exists>m f args r. parse_call (tokens_of ''http get url'') = (Some (NODE_CALL (Some m) f args), r)"
proof -
  have "ttype (parser_current (tokens_of ''http get url'')) \<in>
       {TOK_MATH, TOK_STR, TOK_LIST, TOK_TIME, TOK_HTTP, TOK_JSON, TOK_ERR}
     \<and> parser_check (parser_advance (tokens_of ''http get url'')) TOK_IDENT
     \<and> fst (parse_args (parser_advance (parser_advance (tokens_of ''http get url''))) []) \<noteq> None"
    by code_simp
  with C5_module_call_leading_token [of "tokens_of ''http get url''"] show ?thesis by simp
qed

text \<open>Claim C5 as stated fails: \<^verbatim>\<open>str\<close> and \<^verbatim>\<open>err\<close> both begin a module-qualified call.\<close>

theorem C5_counterexample:
  "fst (parse_call (tokens_of ''str len x''))
     = Some (NODE_CALL (Some ''str'') ''len'' [NODE_VAR ''x''])
   \<and> fst (parse_call (tokens_of ''err code x''))
     = Some (NODE_CALL (Some ''err'') ''code'' [NODE_VAR ''x''])"
  by code_simp

text \<open>The precedence table in the words of the specification: \<^verbatim>\<open>or\<close> binds loosest, then
  \<^verbatim>\<open>and\<close>, the comparisons, the additive and the multiplicative operators. Level 0 is
  every token that is not a binary operator. \<open>op_word\<close> is the operator word that stands in
  the tree for an operator token.\<close>

definition spec_level :: "TokenType \<Rightarrow> nat" where
  "spec_level t =
     (if t = TOK_OR then 1
      else if t = TOK_AND then 2
      else if t \<in> {TOK_EQ, TOK_NEQ, TOK_LT, TOK_GT, TOK_LTE, TOK_GTE} then 3
      else if t \<in> {TOK_PLUS, TOK_MINUS} then 4
      else if t \<in> {TOK_TIMES, TOK_OVER, TOK_MOD} then 5
      else 0)"

definition op_word :: "Token \<Rightarrow> string" where
  "op_word t =
     (if ttype t = TOK_OR then ''or'' else if ttype t = TOK_AND then ''and'' else tvalue t)"

lemma parse_multiplicative_loop_go:
  "parser_check ts TOK_TIMES \<or> parser_check ts TOK_OVER \<or> parser_check ts TOK_MOD \<Longrightarrow>
   parse_multiplicative_loop left ts =
     (case parse_unary (parser_advance ts) of
        (None, r) \<Rightarrow> (None, r)
      | (Some right, r) \<Rightarrow>
          parse_multiplicative_loop (NODE_BINOP (tvalue (parser_current ts)) left right) r)"
  by (subst parse_multiplicative_loop.simps) simp

lemma parse_multiplicative_loop_stop:
  "\<not> (parser_check ts TOK_TIMES \<or> parser_check ts TOK_OVER \<or> parser_check ts TOK_MOD) \<Longrightarrow>
   parse_multiplicative_loop left ts = (Some left, ts)"
  by (subst parse_multiplicative_loop.simps) simp

lemma parse_additive_loop_go:
  "parser_check ts TOK_PLUS \<or> parser_check ts TOK_MINUS \<Longrightarrow>
   parse_additive_loop left ts =
     (case parse_multiplicative (parser_advance ts) of
        (None, r) \<Rightarrow> (None, r)
      | (Some right, r) \<Rightarrow>
          parse_additive_loop (NODE_BINOP (tvalue (parser_current ts)) left right) r)"
  by (subst parse_additive_loop.simps) simp

lemma parse_additive_loop_stop:
  "\<not> (parser_check ts TOK_PLUS \<or> parser_check ts TOK_MINUS) \<Longrightarrow>
   parse_additive_loop left ts = (Some left, ts)"
  by (subst parse_additive_loop.simps) simp

lemma parse_comparison_loop_go:
  "parser_check ts TOK_EQ \<or> parser_check ts TOK_NEQ \<or> parser_check ts TOK_LT
     \<or> parser_check ts TOK_GT \<or> parser_check ts TOK_LTE \<or> parser_check ts TOK_GTE \<Longrightarrow>
   parse_comparison_loop left ts =
     (case parse_additive (parser_advance ts) of
        (None, r) \<Rightarrow> (None, r)
      | (Some right, r) \<Rightarrow>
          parse_comparison_loop (NODE_BINOP (tvalue (parser_current ts)) left right) r)"
  by (subst parse_comparison_loop.simps) simp

lemma parse_comparison_loop_stop:
  "\<not> (parser_check ts TOK_EQ \<or> parser_check ts TOK_NEQ \<or> parser_check ts TOK_LT
     \<or> parser_check ts TOK_GT \<or> parser_check ts TOK_LTE \<or> parser_check ts TOK_GTE) \<Longrightarrow>
   parse_comparison_loop left ts = (Some left, ts)"
  by (subst parse_comparison_loop.simps) simp

lemma parse_and_loop_go:
  "parser_check ts TOK_AND \<Longrightarrow>
   parse_and_loop left ts =
     (case parse_comparison (parser_advance ts) of
        (None, r) \<Rightarrow> (None, r)
      | (Some right, r) \<Rightarrow> parse_and_loop (NODE_BINOP ''and'' left right) r)"
  by (subst parse_and_loop.simps) simp

lemma parse_and_loop_stop:
  "\<not> parser_check ts TOK_AND \<Longrightarrow> parse_and_loop left ts = (Some left, ts)"
  by (subst parse_and_loop.simps) simp

lemma parse_or_loop_go:
  "parser_check ts TOK_OR \<Longrightarrow>
   parse_or_loop left ts =
     (case parse_and (parser_advance ts) of
        (None, r) \<Rightarrow> (None, r)
      | (Some right, r) \<Rightarrow> parse_or_loop (NODE_BINOP ''or'' left right) r)"
  by (subst parse_or_loop.simps) (auto simp: parser_at_end_of_line_def parser_check_def)

lemma parse_or_loop_stop:
  "\<not> parser_check ts TOK_OR \<Longrightarrow> parse_or_loop left ts = (Some left, ts)"
  by (subst parse_or_loop.simps) simp

lemmas binary_levels =
  parse_expr_def parse_or_def parse_and_def parse_comparison_def parse_additive_def
  parse_multiplicative_def
  parse_multiplicative_loop_go parse_multiplicative_loop_stop
  parse_additive_loop_go parse_additive_loop_stop
  parse_comparison_loop_go parse_comparison_loop_stop
  parse_and_loop_go parse_and_loop_stop
  parse_or_loop_go parse_or_loop_stop
  parser_check_def parser_current_def parser_advance_def parser_at_end_def

lemma level_cases:
  assumes "0 < spec_level t"
  obtains "t = TOK_OR" | "t = TOK_AND" | "t = TOK_EQ" | "t = TOK_NEQ" | "t = TOK_LT" | "t = TOK_GT"
    | "t = TOK_LTE" | "t = TOK_GTE" | "t = TOK_PLUS" | "t = TOK_MINUS" | "t = TOK_TIMES"
    | "t = TOK_OVER" | "t = TOK_MOD"
  using assms by (auto simp: spec_level_def split: if_splits)

lemma three_operands:
  assumes A: "parse_unary (ta @ op1 # tb @ op2 # tc @ rest) = (Some a, op1 # tb @ op2 # tc @ rest)"
    and B: "parse_unary (tb @ op2 # tc @ rest) = (Some b, op2 # tc @ rest)"
    and C: "parse_unary (tc @ rest) = (Some c, rest)"
    and R: "spec_level (ttype (parser_current rest)) = 0"
    and t1: "ttype op1 = k1" and t2: "ttype op2 = k2"
    and k1: "k1 \<in> {TOK_OR, TOK_AND, TOK_EQ, TOK_NEQ, TOK_LT, TOK_GT, TOK_LTE, TOK_GTE, TOK_PLUS,
                    TOK_MINUS, TOK_TIMES, TOK_OVER, TOK_MOD}"
    and k2: "k2 \<in> {TOK_OR, TOK_AND, TOK_EQ, TOK_NEQ, TOK_LT, TOK_GT, TOK_LTE, TOK_GTE, TOK_PLUS,
                    TOK_MINUS, TOK_TIMES, TOK_OVER, TOK_MOD}"
  shows "parse_expr (ta @ op1 # tb @ op2 # tc @ rest) =
     (Some (if spec_level (ttype op1) < spec_level (ttype op2)
            then NODE_BINOP (op_word op1) a (NODE_BINOP (op_word op2) b c)
            else NODE_BINOP (op_word op2) (NODE_BINOP (op_word op1) a b) c), rest)"
proof -
  from R have r: "ttype (case rest of [] \<Rightarrow> eof_token | t # x \<Rightarrow> t) \<notin>
      {TOK_OR, TOK_AND, TOK_EQ, TOK_NEQ, TOK_LT, TOK_GT, TOK_LTE, TOK_GTE, TOK_PLUS,
       TOK_MINUS, TOK_TIMES, TOK_OVER, TOK_MOD}"
    by (auto simp: spec_level_def parser_current_def split: if_splits)
  from k1 k2 show ?thesis
    using r by (elim insertE emptyE; simp add: binary_levels A B C t1 t2 spec_level_def op_word_def)
qed


text \<open>Claim C6. Let \<open>ta\<close>, \<open>tb\<close>, \<open>tc\<close> be the tokens of three operands that \<^verbatim>\<open>parse_unary\<close>
  reads as the trees \<open>a\<close>, \<open>b\<close>, \<open>c\<close>, let \<open>op1\<close> and \<open>op2\<close> be binary operator tokens, and
  let the token after the third operand be no binary operator. Then \<open>ta op1 tb op2 tc\<close>
  parses to \<open>a op1 (b op2 c)\<close> when \<open>op2\<close> binds tighter than \<open>op1\<close>, and to
  \<open>(a op1 b) op2 c\<close> otherwise. So \<^verbatim>\<open>A plus B times C\<close> is \<^verbatim>\<open>A plus (B times C)\<close>,
  \<^verbatim>\<open>A times B plus C\<close> is \<^verbatim>\<open>(A times B) plus C\<close>, and two operators of one level nest to
  the left.\<close>

theorem C6_precedence_and_associativity:
  assumes "parse_unary (ta @ op1 # tb @ op2 # tc @ rest) = (Some a, op1 # tb @ op2 # tc @ rest)"
    and "parse_unary (tb @ op2 # tc @ rest) = (Some b, op2 # tc @ rest)"
    and "parse_unary (tc @ rest) = (Some c, rest)"
    and "0 < spec_level (ttype op1)" and "0 < spec_level (ttype op2)"
    and "spec_level (ttype (parser_current rest)) = 0"
  shows "parse_expr (ta @ op1 # tb @ op2 # tc @ rest) =
     (Some (if spec_level (ttype op1) < spec_level (ttype op2)
            then NODE_BINOP (op_word op1) a (NODE_BINOP (op_word op2) b c)
            else NODE_BINOP (op_word op2) (NODE_BINOP (op_word op1) a b) c), rest)"
proof -
  from assms(4) have "ttype op1 \<in> {TOK_OR, TOK_AND, TOK_EQ, TOK_NEQ, TOK_LT, TOK_GT, TOK_LTE,
      TOK_GTE, TOK_PLUS, TOK_MINUS, TOK_TIMES, TOK_OVER, TOK_MOD}"
    by (rule level_cases) simp_all
  moreover from assms(5) have "ttype op2 \<in> {TOK_OR, TOK_AND, TOK_EQ, TOK_NEQ, TOK_LT, TOK_GT,
      TOK_LTE, TOK_GTE, TOK_PLUS, TOK_MINUS, TOK_TIMES, TOK_OVER, TOK_MOD}"
    by (rule level_cases) simp_all
  ultimately show ?thesis
    using assms(1-3,6) by (intro three_operands [OF _ _ _ _ refl refl])
qed

theorem C6_precedence_witness:
  "fst (parse_expr (tokens_of ''a plus b times c''))
     = Some (NODE_BINOP ''plus'' (NODE_VAR ''a'') (NODE_BINOP ''times'' (NODE_VAR ''b'') (NODE_VAR ''c'')))
   \<and> fst (parse_expr (tokens_of ''a times b plus c''))
     = Some (NODE_BINOP ''plus'' (NODE_BINOP ''times'' (NODE_VAR ''a'') (NODE_VAR ''b'')) (NODE_VAR ''c''))
   \<and> fst (parse_expr (tokens_of ''a minus b plus c''))
     = Some (NODE_BINOP ''plus'' (NODE_BINOP ''minus'' (NODE_VAR ''a'') (NODE_VAR ''b'')) (NODE_VAR ''c''))"
proof -
  define tk where "tk ty v col = \<lparr>ttype = ty, tvalue = v, tline = 1, tcolumn = col\<rparr>"
    for ty v col
  have t1: "tokens_of ''a plus b times c'' =
      [tk TOK_IDENT ''a'' 1] @ tk TOK_PLUS ''plus'' 3 # [tk TOK_IDENT ''b'' 8]
        @ tk TOK_TIMES ''times'' 10 # [tk TOK_IDENT ''c'' 16] @ [tk TOK_EOF [] 17]"
    unfolding tk_def by code_simp
  have t2: "tokens_of ''a times b plus c'' =
      [tk TOK_IDENT ''a'' 1] @ tk TOK_TIMES ''times'' 3 # [tk TOK_IDENT ''b'' 9]
        @ tk TOK_PLUS ''plus'' 11 # [tk TOK_IDENT ''c'' 16] @ [tk TOK_EOF [] 17]"
    unfolding tk_def by code_simp
  have t3: "tokens_of ''a minus b plus c'' =
      [tk TOK_IDENT ''a'' 1] @ tk TOK_MINUS ''minus'' 3 # [tk TOK_IDENT ''b'' 9]
        @ tk TOK_PLUS ''plus'' 11 # [tk TOK_IDENT ''c'' 16] @ [tk TOK_EOF [] 17]"
    unfolding tk_def by code_simp
  have u: "parse_unary (tk TOK_IDENT v col # r) = (Some (NODE_VAR v), r)"
    if "v \<noteq> ''true''" "v \<noteq> ''false''" for v col r
    using that
    by (simp add: parse_unary.simps parse_call.simps parse_primary_def tk_def parser_check_def
          parser_current_def parser_advance_def parser_at_end_def is_module_token_def
          is_number_word_def is_positional_def)
  have lv: "spec_level (ttype (tk TOK_PLUS w col)) = 4" "spec_level (ttype (tk TOK_MINUS w col)) = 4"
    "spec_level (ttype (tk TOK_TIMES w col)) = 5"
    "spec_level (ttype (parser_current [tk TOK_EOF [] col])) = 0" for w col
    by (simp_all add: spec_level_def tk_def parser_current_def)
  have w: "op_word (tk TOK_PLUS w col) = w" "op_word (tk TOK_MINUS w col) = w"
    "op_word (tk TOK_TIMES w col) = w" for w col
    by (simp_all add: op_word_def tk_def)
  show ?thesis
    unfolding t1 t2 t3
    using
      C6_precedence_and_associativity [of "[tk TOK_IDENT ''a'' 1]" "tk TOK_PLUS ''plus'' 3"
        "[tk TOK_IDENT ''b'' 8]" "tk TOK_TIMES ''times'' 10" "[tk TOK_IDENT ''c'' 16]"
        "[tk TOK_EOF [] 17]" "NODE_VAR ''a''" "NODE_VAR ''b''" "NODE_VAR ''c''"]
      C6_precedence_and_associativity [of "[tk TOK_IDENT ''a'' 1]" "tk TOK_TIMES ''times'' 3"
        "[tk TOK_IDENT ''b'' 9]" "tk TOK_PLUS ''plus'' 11" "[tk TOK_IDENT ''c'' 16]"
        "[tk TOK_EOF [] 17]" "NODE_VAR ''a''" "NODE_VAR ''b''" "NODE_VAR ''c''"]
      C6_precedence_and_associativity [of "[tk TOK_IDENT ''a'' 1]" "tk TOK_MINUS ''minus'' 3"
        "[tk TOK_IDENT ''b'' 9]" "tk TOK_PLUS ''plus'' 11" "[tk TOK_IDENT ''c'' 16]"
        "[tk TOK_EOF [] 17]" "NODE_VAR ''a''" "NODE_VAR ''b''" "NODE_VAR ''c''"]
    by (simp add: u lv w)
qed

lemma parse_args_stops_at_boundary:
  "parse_args ts acc = (Some args, r) \<Longrightarrow> is_end_of_expr r"
proof (induction ts acc arbitrary: args r
    rule: parse_unary_parse_call_parse_args.induct(3) [where P = "\<lambda>ts. True" and Q = "\<lambda>ts. True"])
  case (3 ts acc)
  show ?case
  proof (cases "is_end_of_expr ts")
    case True
    with "3.prems" show ?thesis by (subst (asm) parse_args.simps) simp
  next
    case False
    obtain x y where pu: "(x, y) = parse_unary ts" by (metis surj_pair)
    show ?thesis
    proof (cases x)
      case None
      with False pu [symmetric] "3.prems" show ?thesis
        by (subst (asm) parse_args.simps) simp
    next
      case (Some arg)
      with False pu [symmetric] "3.prems" have "parse_args y (acc @ [arg]) = (Some args, r)"
        by (subst (asm) parse_args.simps) simp
      with "3.IH" [OF False pu Some] show ?thesis by simp
    qed
  qed
qed simp_all

text \<open>Claim C8 (amended). The boundary tokens of the argument loop are exactly newline,
  end of input, the thirteen binary operators and the keywords \<^verbatim>\<open>ret\<close>, \<^verbatim>\<open>let\<close>, \<^verbatim>\<open>if\<close>,
  \<^verbatim>\<open>else\<close>, \<^verbatim>\<open>call\<close>, \<^verbatim>\<open>out\<close>, \<^verbatim>\<open>done\<close>, \<^verbatim>\<open>repeat\<close>, \<^verbatim>\<open>as\<close>, \<^verbatim>\<open>while\<close>; whenever
  the loop returns arguments it has stopped at such a token. For an argument \<open>a\<close> that does
  not itself begin with a boundary token and an operand \<open>b\<close> that ends its line,
  \<^verbatim>\<open>call f a plus b\<close> parses as the binary expression \<^verbatim>\<open>(call f a) plus b\<close>.\<close>

theorem C8_call_argument_boundary:
  "(is_end_of_expr ts \<longleftrightarrow>
      ttype (parser_current ts) \<in>
        {TOK_NEWLINE, TOK_EOF,
         TOK_PLUS, TOK_MINUS, TOK_TIMES, TOK_OVER, TOK_MOD, TOK_EQ, TOK_NEQ, TOK_LT, TOK_GT,
         TOK_LTE, TOK_GTE, TOK_AND, TOK_OR,
         TOK_RET, TOK_LET, TOK_IF, TOK_ELSE, TOK_CALL, TOK_OUT, TOK_DONE, TOK_REPEAT, TOK_AS,
         TOK_WHILE})
   \<and> (parse_args ts acc = (Some args, r) \<longrightarrow> is_end_of_expr r)
   \<and> (ttype c = TOK_CALL \<and> ttype f = TOK_IDENT \<and> ttype p = TOK_PLUS
        \<and> \<not> is_end_of_expr (ta @ p # tb @ rest)
        \<and> parse_unary (ta @ p # tb @ rest) = (Some a, p # tb @ rest)
        \<and> parse_multiplicative (tb @ rest) = (Some b, rest)
        \<and> parser_at_end_of_line rest
      \<longrightarrow> parse_expr (c # f # ta @ p # tb @ rest)
            = (Some (NODE_BINOP (tvalue p) (NODE_CALL None (tvalue f) [a]) b), rest))"
proof (intro conjI impI)
  show "is_end_of_expr ts \<longleftrightarrow>
      ttype (parser_current ts) \<in>
        {TOK_NEWLINE, TOK_EOF,
         TOK_PLUS, TOK_MINUS, TOK_TIMES, TOK_OVER, TOK_MOD, TOK_EQ, TOK_NEQ, TOK_LT, TOK_GT,
         TOK_LTE, TOK_GTE, TOK_AND, TOK_OR,
         TOK_RET, TOK_LET, TOK_IF, TOK_ELSE, TOK_CALL, TOK_OUT, TOK_DONE, TOK_REPEAT, TOK_AS,
         TOK_WHILE}"
    by (auto simp: is_end_of_expr_def Let_def parser_at_end_of_line_def parser_check_def)
next
  assume "parse_args ts acc = (Some args, r)"
  then show "is_end_of_expr r" by (rule parse_args_stops_at_boundary)
next
  assume h: "ttype c = TOK_CALL \<and> ttype f = TOK_IDENT \<and> ttype p = TOK_PLUS
        \<and> \<not> is_end_of_expr (ta @ p # tb @ rest)
        \<and> parse_unary (ta @ p # tb @ rest) = (Some a, p # tb @ rest)
        \<and> parse_multiplicative (tb @ rest) = (Some b, rest)
        \<and> parser_at_end_of_line rest"
  then have stop: "is_end_of_expr (p # tb @ rest)"
    by (simp add: is_end_of_expr_def parser_current_def)
  from h have args: "parse_args (ta @ p # tb @ rest) [] = (Some [a], p # tb @ rest)"
    by (subst parse_args.simps, simp, subst parse_args.simps) (simp add: stop)
  from h have call: "parse_unary (c # f # ta @ p # tb @ rest)
      = (Some (NODE_CALL None (tvalue f) [a]), p # tb @ rest)"
    by (subst parse_unary.simps, subst parse_call.simps)
       (simp add: args parser_check_def parser_current_def parser_advance_def parser_at_end_def
          parser_expect_def)
  from h have r: "ttype (case rest of [] \<Rightarrow> eof_token | t # x \<Rightarrow> t) \<in> {TOK_NEWLINE, TOK_EOF}"
    by (auto simp: parser_at_end_of_line_def parser_check_def parser_current_def)
  from h have b: "parse_multiplicative (tb @ rest) = (Some b, rest)" by simp
  from h r show "parse_expr (c # f # ta @ p # tb @ rest)
      = (Some (NODE_BINOP (tvalue p) (NODE_CALL None (tvalue f) [a]) b), rest)"
    by (auto simp: parse_expr_def parse_or_def parse_and_def parse_comparison_def
          parse_additive_def parse_multiplicative_def [of "c # f # ta @ p # tb @ rest"] call b
          parse_multiplicative_loop_stop parse_additive_loop_go parse_additive_loop_stop
          parse_comparison_loop_stop parse_and_loop_stop parse_or_loop_stop
          parser_check_def parser_current_def parser_advance_def parser_at_end_def)
qed

theorem C8_call_argument_witness:
  "is_end_of_expr (drop 3 (tokens_of ''a neg c plus b''))
   \<and> fst (parse_expr (tokens_of ''call f a plus b''))
       = Some (NODE_BINOP ''plus'' (NODE_CALL None ''f'' [NODE_VAR ''a'']) (NODE_VAR ''b''))"
proof -
  define tk where "tk ty v col = \<lparr>ttype = ty, tvalue = v, tline = 1, tcolumn = col\<rparr>"
    for ty v col
  have t: "tokens_of ''call f a plus b'' =
      tk TOK_CALL ''call'' 1 # tk TOK_IDENT ''f'' 6 # [tk TOK_IDENT ''a'' 8]
        @ tk TOK_PLUS ''plus'' 10 # [tk TOK_IDENT ''b'' 15] @ [tk TOK_EOF [] 16]"
    unfolding tk_def by code_simp
  have hyp: "ttype (tk TOK_CALL ''call'' 1) = TOK_CALL \<and> ttype (tk TOK_IDENT ''f'' 6) = TOK_IDENT
      \<and> ttype (tk TOK_PLUS ''plus'' 10) = TOK_PLUS
      \<and> \<not> is_end_of_expr ([tk TOK_IDENT ''a'' 8] @ tk TOK_PLUS ''plus'' 10 # [tk TOK_IDENT ''b'' 15]
            @ [tk TOK_EOF [] 16])
      \<and> parse_unary ([tk TOK_IDENT ''a'' 8] @ tk TOK_PLUS ''plus'' 10 # [tk TOK_IDENT ''b'' 15]
            @ [tk TOK_EOF [] 16])
          = (Some (NODE_VAR ''a''), tk TOK_PLUS ''plus'' 10 # [tk TOK_IDENT ''b'' 15]
            @ [tk TOK_EOF [] 16])
      \<and> parse_multiplicative ([tk TOK_IDENT ''b'' 15] @ [tk TOK_EOF [] 16])
          = (Some (NODE_VAR ''b''), [tk TOK_EOF [] 16])
      \<and> parser_at_end_of_line [tk TOK_EOF [] 16]"
    unfolding tk_def by code_simp
  have args: "parse_args (tokens_of ''a neg c plus b'') []
      = (Some [NODE_VAR ''a'', NODE_UNARYOP ''neg'' (NODE_VAR ''c'')], drop 3 (tokens_of ''a neg c plus b''))"
    by code_simp
  have "is_end_of_expr (drop 3 (tokens_of ''a neg c plus b''))"
    using C8_call_argument_boundary [where ts = "tokens_of ''a neg c plus b''" and acc = "[]"
        and args = "[NODE_VAR ''a'', NODE_UNARYOP ''neg'' (NODE_VAR ''c'')]"
        and r = "drop 3 (tokens_of ''a neg c plus b'')"] args
    by simp
  moreover have "fst (parse_expr (tokens_of ''call f a plus b''))
       = Some (NODE_BINOP ''plus'' (NODE_CALL None ''f'' [NODE_VAR ''a'']) (NODE_VAR ''b''))"
    unfolding t
    using C8_call_argument_boundary [where c = "tk TOK_CALL ''call'' 1"
        and f = "tk TOK_IDENT ''f'' 6" and p = "tk TOK_PLUS ''plus'' 10"
        and ta = "[tk TOK_IDENT ''a'' 8]" and tb = "[tk TOK_IDENT ''b'' 15]"
        and rest = "[tk TOK_EOF [] 16]" and a = "NODE_VAR ''a''" and b = "NODE_VAR ''b''"] hyp
    by (simp add: tk_def)
  ultimately show ?thesis by simp
qed

text \<open>Claim C8 as stated fails. The statement keywords \<^verbatim>\<open>inc\<close> and \<^verbatim>\<open>dec\<close> are no
  boundary tokens: in \<^verbatim>\<open>call f a inc x\<close> the argument loop runs into \<^verbatim>\<open>inc\<close> and the call
  fails to parse. And \<^verbatim>\<open>call\<close> is one: in \<^verbatim>\<open>call f call g a plus b\<close> the outer call gets
  no argument and the expression ends before the inner call.\<close>

theorem C8_counterexample:
  "\<not> is_end_of_expr (tokens_of ''inc x'')
   \<and> \<not> is_end_of_expr (tokens_of ''dec x'')
   \<and> fst (parse_call (tokens_of ''call f a inc x'')) = None
   \<and> parse_expr (tokens_of ''call f call g a plus b'')
       = (Some (NODE_CALL None ''f'' []), drop 2 (tokens_of ''call f call g a plus b''))"
  by code_simp

text \<open>The shape of a well-formed function body: each block is opened by a label, holds
  instructions, and is closed by exactly one terminator (a return or a branch); nothing
  follows a terminator but the next label or the end of the function.\<close>

datatype line_kind = KDefine | KLabel | KTerminator | KInstruction | KComment | KClose | KModule

fun kind_of :: "ir \<Rightarrow> line_kind" where
  "kind_of (IDefine f n) = KDefine"
| "kind_of IEntry = KLabel"
| "kind_of (ILabel l) = KLabel"
| "kind_of (IRet v) = KTerminator"
| "kind_of (IBr l) = KTerminator"
| "kind_of (ICondBr c l1 l2) = KTerminator"
| "kind_of (IComment s) = KComment"
| "kind_of IClose = KClose"
| "kind_of (IText s) = KModule"
| "kind_of (IStrConst i n s) = KModule"
| "kind_of _ = KInstruction"

datatype block_state =
    Outside      \<comment> \<open>between function definitions\<close>
  | Fresh        \<comment> \<open>after the signature, before the entry label\<close>
  | Unfinished   \<comment> \<open>in a block that has no terminator yet\<close>
  | Finished     \<comment> \<open>after the terminator of a block\<close>

fun blocks_scan :: "block_state \<Rightarrow> ir list \<Rightarrow> bool" where
  "blocks_scan st [] = (st = Outside)"
| "blocks_scan st (i # is) =
     (case kind_of i of
        KDefine \<Rightarrow> st = Outside \<and> blocks_scan Fresh is
      | KLabel \<Rightarrow> (st = Fresh \<or> st = Finished) \<and> blocks_scan Unfinished is
      | KTerminator \<Rightarrow> st = Unfinished \<and> blocks_scan Finished is
      | KInstruction \<Rightarrow> st = Unfinished \<and> blocks_scan Unfinished is
      | KComment \<Rightarrow> blocks_scan st is
      | KClose \<Rightarrow> st = Finished \<and> blocks_scan Outside is
      | KModule \<Rightarrow> st = Outside \<and> blocks_scan Outside is)"

definition blocks_terminated :: "ir list \<Rightarrow> bool" where
  "blocks_terminated code = blocks_scan Outside code"

lemma find_local_in_absent:
  "\<forall>slot \<in> set slots. \<exists>n reg. slot = Some (n, reg) \<and> n \<noteq> name \<Longrightarrow>
   find_local_in slots name = Inr (- 1)"
  by (induction slots name rule: find_local_in.induct) auto

text \<open>Claim C2. Every basic block of the emitted code should end with exactly one
  terminator. The if lowering looks whether an arm is a return before it adds the branch to
  the end label, and so the code of \<^verbatim>\<open>fn g x\<close> / \<^verbatim>\<open>if x gt zero ret ok x else ret err zero\<close>
  is well formed. The while lowering (and the repeat lowering) adds its back branch without
  looking: for \<^verbatim>\<open>fn f x\<close> / \<^verbatim>\<open>while x gt zero\<close> / \<^verbatim>\<open>ret x\<close> / \<^verbatim>\<open>done\<close> the block
  \<^verbatim>\<open>while_body1\<close> holds a return and, after it, a branch.\<close>

theorem C2_return_in_loop_body:
  "blocks_terminated (emitted_functions ''fn g x\<newline>if x gt zero ret ok x else ret err zero\<newline>'')
   \<and> compile_status ''fn f x\<newline>while x gt zero\<newline>ret x\<newline>done\<newline>'' = Inr 0
   \<and> emitted_functions ''fn f x\<newline>while x gt zero\<newline>ret x\<newline>done\<newline>'' =
     [IDefine ''f'' 1, IEntry,
      IBr (Label ''while_start'' 0),
      ILabel (Label ''while_start'' 0),
      IBin ''fadd'' 0 Zero (Param 0),
      IBin ''fadd'' 1 Zero (LitF 0),
      IFcmp ''ogt'' 3 (Tmp 0) (Tmp 1),
      IUitofp 2 3,
      IFcmp ''one'' 4 (Tmp 2) Zero,
      ICondBr 4 (Label ''while_body'' 1) (Label ''while_end'' 2),
      ILabel (Label ''while_body'' 1),
      IBin ''fadd'' 5 Zero (Param 0),
      IRet (Tmp 5),
      IBr (Label ''while_start'' 0),
      ILabel (Label ''while_end'' 2),
      IRet Zero,
      IClose]
   \<and> \<not> blocks_terminated (emitted_functions ''fn f x\<newline>while x gt zero\<newline>ret x\<newline>done\<newline>'')"
  by code_simp

text \<open>Claim C4 (amended). When the native toolchain has built the executable, \<^verbatim>\<open>cmd_run\<close>
  runs it, removes all four temporary files and returns the status of the executable,
  whatever that is. When the native toolchain fails, \<^verbatim>\<open>cmd_run\<close> returns 1 and the IR
  file, the entry file and the combined file stay where they are.\<close>

theorem C4_run_temporary_files:
  assumes "front_end (input_file env) = Some ast"
    and "codegen_llvm (can_open_ll env) ast = Inr (Inr cg)"
    and "can_open_main env" and "cat_status env = 0"
  shows "(clang_status env = 0 \<longrightarrow>
            (\<exists>files'. cmd_run env files = Inr (bin_status env, files')
                \<and> files' \<inter> {tmp_ll, tmp_main, tmp_combined, tmp_bin} = {}))
       \<and> (clang_status env \<noteq> 0 \<longrightarrow>
            (\<exists>files'. cmd_run env files = Inr (1, files')
                \<and> {tmp_ll, tmp_main, tmp_combined} \<subseteq> files'))"
  using assms by (auto simp: cmd_run_def Let_def)

theorem C4_run_witness:
  "(\<exists>files'. cmd_run \<lparr>input_file = Some ''fn add a b\<newline>ret a plus b\<newline>'', can_open_ll = True,
        can_open_main = True, cat_status = 0, clang_status = 0, bin_status = 3\<rparr> {tmp_bin}
          = Inr (3, files')
      \<and> files' \<inter> {tmp_ll, tmp_main, tmp_combined, tmp_bin} = {})"
proof -
  obtain ast cg where
    "front_end (Some ''fn add a b\<newline>ret a plus b\<newline>'') = Some ast"
    "codegen_llvm True ast = Inr (Inr cg)"
  proof -
    have "\<exists>ast cg. front_end (Some ''fn add a b\<newline>ret a plus b\<newline>'') = Some ast
        \<and> codegen_llvm True ast = Inr (Inr cg)"
      by (intro exI conjI) code_simp+
    then show ?thesis using that by blast
  qed
  with C4_run_temporary_files [of "\<lparr>input_file = Some ''fn add a b\<newline>ret a plus b\<newline>'',
        can_open_ll = True, can_open_main = True, cat_status = 0, clang_status = 0,
        bin_status = 3\<rparr>" ast cg "{tmp_bin}"]
  show ?thesis by simp
qed

text \<open>Claim C4 as stated fails: after a failure of the native toolchain three of the four
  temporary files are still there.\<close>

theorem C4_counterexample:
  "cmd_run \<lparr>input_file = Some ''fn add a b\<newline>ret a plus b\<newline>'', can_open_ll = True,
        can_open_main = True, cat_status = 0, clang_status = 1, bin_status = 0\<rparr> {}
     = Inr (1, {tmp_ll, tmp_main, tmp_combined})"
  by code_simp

text \<open>Claim C10. \<^verbatim>\<open>inc\<close> and \<^verbatim>\<open>dec\<close> look their target up among the locals only. For
  the name of a parameter that is not the name of any local, the statement adds the
  unknown-variable message to the diagnostics and nothing else changes: no line is emitted,
  so no load and no store.\<close>

theorem C10_inc_dec_on_parameter:
  assumes "name \<in> set (param_names cg)"
    and "\<forall>slot \<in> set (locals cg). \<exists>n reg. slot = Some (n, reg) \<and> n \<noteq> name"
  shows "codegen_stmt cg (NODE_INC name amount) =
           Inr (cg\<lparr>diag := diag cg @ [''Error: Unknown variable '' @ apostrophe @ name
                                          @ apostrophe @ '' in inc'']\<rparr>)
       \<and> codegen_stmt cg (NODE_DEC name amount) =
           Inr (cg\<lparr>diag := diag cg @ [''Error: Unknown variable '' @ apostrophe @ name
                                          @ apostrophe @ '' in dec'']\<rparr>)"
  using find_local_in_absent [OF assms(2)] by (simp add: find_local_def report_def)

theorem C10_inc_dec_witness:
  "codegen_stmt (codegen_create\<lparr>param_names := [''x''], locals := [Some (''s'', 0)]\<rparr>)
       (NODE_INC ''x'' None) =
     Inr (codegen_create\<lparr>param_names := [''x''], locals := [Some (''s'', 0)],
            diag := [''Error: Unknown variable '' @ apostrophe @ ''x'' @ apostrophe @ '' in inc'']\<rparr>)
   \<and> emitted_functions ''fn f x\<newline>let s zero\<newline>inc x\<newline>dec x two\<newline>ret x\<newline>'' =
       [IDefine ''f'' 1, IEntry, IBin ''fadd'' 0 Zero (LitF 0), IAlloca 0, IStore (Tmp 0) 0,
        IBin ''fadd'' 1 Zero (Param 0), IRet (Tmp 1), IClose]
   \<and> compile_messages ''fn f x\<newline>let s zero\<newline>inc x\<newline>dec x two\<newline>ret x\<newline>'' =
       [''Error: Unknown variable '' @ apostrophe @ ''x'' @ apostrophe @ '' in inc'',
        ''Error: Unknown variable '' @ apostrophe @ ''x'' @ apostrophe @ '' in dec'']"
proof -
  have "codegen_stmt (codegen_create\<lparr>param_names := [''x''], locals := [Some (''s'', 0)]\<rparr>)
       (NODE_INC ''x'' None) =
     Inr (codegen_create\<lparr>param_names := [''x''], locals := [Some (''s'', 0)],
            diag := [''Error: Unknown variable '' @ apostrophe @ ''x'' @ apostrophe @ '' in inc'']\<rparr>)"
    using C10_inc_dec_on_parameter [of "''x''"
        "codegen_create\<lparr>param_names := [''x''], locals := [Some (''s'', 0)]\<rparr>" None]
    by (simp add: codegen_create_def)
  moreover have "emitted_functions ''fn f x\<newline>let s zero\<newline>inc x\<newline>dec x two\<newline>ret x\<newline>'' =
       [IDefine ''f'' 1, IEntry, IBin ''fadd'' 0 Zero (LitF 0), IAlloca 0, IStore (Tmp 0) 0,
        IBin ''fadd'' 1 Zero (Param 0), IRet (Tmp 1), IClose]
   \<and> compile_messages ''fn f x\<newline>let s zero\<newline>inc x\<newline>dec x two\<newline>ret x\<newline>'' =
       [''Error: Unknown variable '' @ apostrophe @ ''x'' @ apostrophe @ '' in inc'',
        ''Error: Unknown variable '' @ apostrophe @ ''x'' @ apostrophe @ '' in dec'']"
    by code_simp
  ultimately show ?thesis by simp
qed

end
